theory Spec2Isabelle
  imports Main
begin

section \<open>Strings\<close>

text \<open>
  A JavaScript string is a sequence of UTF-16 code units, and a regular expression
  without the \<open>u\<close> flag works on code units. A string is modelled as the list of
  its code units, so that lengths, indices and the 60 and 120 character windows count
  what the source counts. Literals are written \<open>js ''...''\<close>; the backslash and
  the line feed are written as numbers.
\<close>

type_synonym jschar = nat
type_synonym jsstring = "nat list"

definition js :: "string \<Rightarrow> jsstring" where
  "js = map of_char"

abbreviation NL :: jschar where "NL \<equiv> 10"
abbreviation CR :: jschar where "CR \<equiv> 13"
abbreviation DOLLAR :: jschar where "DOLLAR \<equiv> 36"
abbreviation BSL :: jschar where "BSL \<equiv> 92"

text \<open>\<open>\s\<close> and \<open>trim\<close>: white space and line terminators of ECMAScript.\<close>

definition isWS :: "jschar \<Rightarrow> bool" where
  "isWS c \<longleftrightarrow> c = 9 \<or> c = 10 \<or> c = 11 \<or> c = 12 \<or> c = 13 \<or> c = 32 \<or> c = 160 \<or> c = 5760
     \<or> (8192 \<le> c \<and> c \<le> 8202) \<or> c = 8232 \<or> c = 8233 \<or> c = 8239 \<or> c = 8287
     \<or> c = 12288 \<or> c = 65279"

text \<open>The characters that \<open>.\<close> does not match (no \<open>s\<close> flag).\<close>

definition isLT :: "jschar \<Rightarrow> bool" where
  "isLT c \<longleftrightarrow> c = 10 \<or> c = 13 \<or> c = 8232 \<or> c = 8233"

definition isDot :: "jschar \<Rightarrow> bool" where
  "isDot c \<longleftrightarrow> \<not> isLT c"

definition isAny :: "jschar \<Rightarrow> bool" where
  "isAny c \<longleftrightarrow> True"

definition isBlank :: "jschar \<Rightarrow> bool" where
  "isBlank c \<longleftrightarrow> c = 32 \<or> c = 9"

definition isDigit :: "jschar \<Rightarrow> bool" where
  "isDigit c \<longleftrightarrow> 48 \<le> c \<and> c \<le> 57"

definition isUpper :: "jschar \<Rightarrow> bool" where
  "isUpper c \<longleftrightarrow> 65 \<le> c \<and> c \<le> 90"

definition isLower :: "jschar \<Rightarrow> bool" where
  "isLower c \<longleftrightarrow> 97 \<le> c \<and> c \<le> 122"

definition isAlpha :: "jschar \<Rightarrow> bool" where
  "isAlpha c \<longleftrightarrow> isUpper c \<or> isLower c"

definition isAlnum :: "jschar \<Rightarrow> bool" where
  "isAlnum c \<longleftrightarrow> isAlpha c \<or> isDigit c"

text \<open>\<open>\w\<close>, which also decides \<open>\b\<close>.\<close>

definition isWord :: "jschar \<Rightarrow> bool" where
  "isWord c \<longleftrightarrow> isAlnum c \<or> c = 95"

text \<open>
  Case folding of the \<open>i\<close> flag for a pattern character that is an ASCII letter:
  a code unit above 127 never folds to an ASCII letter, so only the two ASCII cases match.
\<close>

definition upperAscii :: "jschar \<Rightarrow> jschar" where
  "upperAscii c = (if isLower c then c - 32 else c)"

definition trimStart :: "jsstring \<Rightarrow> jsstring" where
  "trimStart s = dropWhile isWS s"

definition trimEnd :: "jsstring \<Rightarrow> jsstring" where
  "trimEnd s = rev (dropWhile isWS (rev s))"

definition trim :: "jsstring \<Rightarrow> jsstring" where
  "trim s = trimEnd (trimStart s)"

text \<open>\<open>s.slice(a, b)\<close> for \<open>0 \<le> a\<close> and \<open>0 \<le> b\<close>; indices beyond the end are clamped.\<close>

definition slice :: "jsstring \<Rightarrow> nat \<Rightarrow> nat \<Rightarrow> jsstring" where
  "slice s a b = take (b - a) (drop a s)"

text \<open>\<open>s[i]\<close>, which is \<open>undefined\<close> beyond the end.\<close>

definition charAt :: "jsstring \<Rightarrow> nat \<Rightarrow> jschar option" where
  "charAt s i = (if i < length s then Some (s ! i) else None)"

fun startsWith :: "jsstring \<Rightarrow> jsstring \<Rightarrow> bool" where
  "startsWith [] s = True"
| "startsWith (p # ps) [] = False"
| "startsWith (p # ps) (c # cs) = (c = p \<and> startsWith ps cs)"

section \<open>Regular expressions\<close>

text \<open>
  A regular expression is embedded as a backtracking matcher in continuation-passing
  style. A matcher takes the captures made so far, the text to the left of the current
  position (reversed, for \<open>^\<close>, \<open>\b\<close> and lookbehind) and the text from the current
  position on; it returns the captures and the text that remains after the match, or
  \<open>None\<close>. Each construct takes the matcher of the rest of the expression, so that a
  failure further right backtracks into it: alternatives are tried left to right, a
  greedy quantifier tries the longest repetition first and a lazy one the shortest.
\<close>

type_synonym mres = "(jsstring list \<times> jsstring) option"
type_synonym matcher = "jsstring list \<Rightarrow> jsstring \<Rightarrow> jsstring \<Rightarrow> mres"
type_synonym rx = "matcher \<Rightarrow> matcher"

definition accept :: matcher where
  "accept caps rb s = Some (caps, s)"

text \<open>A literal string.\<close>

fun lit :: "jsstring \<Rightarrow> rx" where
  "lit [] k caps rb s = k caps rb s"
| "lit (p # ps) k caps rb [] = None"
| "lit (p # ps) k caps rb (c # cs) = (if c = p then lit ps k caps (c # rb) cs else None)"

text \<open>
  A literal string under the \<open>i\<close> flag: both characters are canonicalised by upper-casing
  (without the \<open>u\<close> flag a character outside ASCII never folds to an ASCII one).
\<close>

fun liti :: "jsstring \<Rightarrow> rx" where
  "liti [] k caps rb s = k caps rb s"
| "liti (p # ps) k caps rb [] = None"
| "liti (p # ps) k caps rb (c # cs) =
     (if upperAscii c = upperAscii p then liti ps k caps (c # rb) cs else None)"

text \<open>One character of a class.\<close>

fun cls :: "(jschar \<Rightarrow> bool) \<Rightarrow> rx" where
  "cls P k caps rb [] = None"
| "cls P k caps rb (c # cs) = (if P c then k caps (c # rb) cs else None)"

text \<open>\<open>[P]*\<close>, greedy.\<close>

fun star :: "(jschar \<Rightarrow> bool) \<Rightarrow> rx" where
  "star P k caps rb [] = k caps rb []"
| "star P k caps rb (c # cs) =
     (if P c then (case star P k caps (c # rb) cs of
                     Some r \<Rightarrow> Some r
                   | None \<Rightarrow> k caps rb (c # cs))
      else k caps rb (c # cs))"

text \<open>\<open>[P]+\<close>, greedy.\<close>

definition plus :: "(jschar \<Rightarrow> bool) \<Rightarrow> rx" where
  "plus P k = cls P (star P k)"

text \<open>\<open>[P]*?\<close>, lazy.\<close>

fun lazy :: "(jschar \<Rightarrow> bool) \<Rightarrow> rx" where
  "lazy P k caps rb [] = k caps rb []"
| "lazy P k caps rb (c # cs) =
     (case k caps rb (c # cs) of
        Some r \<Rightarrow> Some r
      | None \<Rightarrow> if P c then lazy P k caps (c # rb) cs else None)"

text \<open>\<open>[P]{0,n}\<close>, greedy.\<close>

fun upto :: "nat \<Rightarrow> (jschar \<Rightarrow> bool) \<Rightarrow> rx" where
  "upto 0 P k caps rb s = k caps rb s"
| "upto (Suc n) P k caps rb [] = k caps rb []"
| "upto (Suc n) P k caps rb (c # cs) =
     (if P c then (case upto n P k caps (c # rb) cs of
                     Some r \<Rightarrow> Some r
                   | None \<Rightarrow> k caps rb (c # cs))
      else k caps rb (c # cs))"

text \<open>\<open>r1|r2\<close> and \<open>r?\<close>.\<close>

definition alt :: "rx \<Rightarrow> rx \<Rightarrow> rx" where
  "alt r1 r2 k caps rb s =
     (case r1 k caps rb s of Some r \<Rightarrow> Some r | None \<Rightarrow> r2 k caps rb s)"

fun alts :: "rx list \<Rightarrow> rx" where
  "alts [] k caps rb s = None"
| "alts (r # rs) k caps rb s =
     (case r k caps rb s of Some x \<Rightarrow> Some x | None \<Rightarrow> alts rs k caps rb s)"

definition opt :: "rx \<Rightarrow> rx" where
  "opt r k caps rb s =
     (case r k caps rb s of Some x \<Rightarrow> Some x | None \<Rightarrow> k caps rb s)"

text \<open>
  A capturing group: what \<open>r\<close> consumed is appended to the captures. The groups of the
  source are never nested, so they are numbered in the order in which they close.
\<close>

definition cap :: "rx \<Rightarrow> rx" where
  "cap r k caps rb s =
     r (\<lambda>caps' rb' s'. k (caps' @ [take (length s - length s') s]) rb' s') caps rb s"

text \<open>A backreference to capture \<open>i\<close> (counted from 0).\<close>

definition backref :: "nat \<Rightarrow> rx" where
  "backref i k caps rb s = (if i < length caps then lit (caps ! i) k caps rb s else None)"

text \<open>\<open>^\<close> and \<open>$\<close>, without and with the \<open>m\<close> flag; \<open>\b\<close>.\<close>

definition bol :: rx where
  "bol k caps rb s = (if rb = [] then k caps rb s else None)"

definition eol :: rx where
  "eol k caps rb s = (if s = [] then k caps rb s else None)"

definition bolM :: rx where
  "bolM k caps rb s = (if rb = [] \<or> isLT (hd rb) then k caps rb s else None)"

definition eolM :: rx where
  "eolM k caps rb s = (if s = [] \<or> isLT (hd s) then k caps rb s else None)"

definition atWordBoundary :: "jsstring \<Rightarrow> jsstring \<Rightarrow> bool" where
  "atWordBoundary rb s \<longleftrightarrow>
     (rb \<noteq> [] \<and> isWord (hd rb)) \<noteq> (s \<noteq> [] \<and> isWord (hd s))"

definition wordb :: rx where
  "wordb k caps rb s = (if atWordBoundary rb s then k caps rb s else None)"

text \<open>Lookahead \<open>(?=r)\<close>, \<open>(?!r)\<close>; lookbehind of a literal \<open>(?<=p)\<close>, \<open>(?<!p)\<close>.\<close>

definition ahead :: "rx \<Rightarrow> rx" where
  "ahead r k caps rb s = (if r accept caps rb s \<noteq> None then k caps rb s else None)"

definition nahead :: "rx \<Rightarrow> rx" where
  "nahead r k caps rb s = (if r accept caps rb s = None then k caps rb s else None)"

definition behind :: "jsstring \<Rightarrow> rx" where
  "behind p k caps rb s = (if startsWith (rev p) rb then k caps rb s else None)"

definition nbehind :: "jsstring \<Rightarrow> rx" where
  "nbehind p k caps rb s = (if \<not> startsWith (rev p) rb then k caps rb s else None)"

text \<open>A match of \<open>r\<close> that starts at the current position.\<close>

definition matchAt :: "rx \<Rightarrow> jsstring \<Rightarrow> jsstring \<Rightarrow> mres" where
  "matchAt r rb s = r accept [] rb s"

text \<open>\<open>r.test(s)\<close>: a match starting at some position, tried left to right.\<close>

fun searchFrom :: "rx \<Rightarrow> jsstring \<Rightarrow> jsstring \<Rightarrow> bool" where
  "searchFrom r rb [] = (matchAt r rb [] \<noteq> None)"
| "searchFrom r rb (c # cs) = (matchAt r rb (c # cs) \<noteq> None \<or> searchFrom r (c # rb) cs)"

definition test :: "rx \<Rightarrow> jsstring \<Rightarrow> bool" where
  "test r s = searchFrom r [] s"

text \<open>
  The pieces of a global scan (\<open>exec\<close> in a loop, \<open>matchAll\<close>, \<open>replace\<close> with the
  \<open>g\<close> flag): the text between two matches, and each match with its captures. The next
  match is looked for where the previous one ended. No expression of the source matches
  the empty string; the scan steps over one character after an empty match, as
  \<open>replace\<close> and \<open>matchAll\<close> do.
\<close>

datatype piece = Gap jsstring | Match jsstring "jsstring list"

function scan :: "rx \<Rightarrow> jsstring \<Rightarrow> jsstring \<Rightarrow> jsstring \<Rightarrow> piece list" where
  "scan r rb gap s =
     (case matchAt r rb s of
        Some (caps, rest) \<Rightarrow>
          (if length rest < length s
           then Gap gap # Match (take (length s - length rest) s) caps
                  # scan r (rev (take (length s - length rest) s) @ rb) [] rest
           else (case s of
                   [] \<Rightarrow> [Gap gap, Match [] caps, Gap []]
                 | c # cs \<Rightarrow> Gap gap # Match [] caps # scan r (c # rb) [c] cs))
      | None \<Rightarrow>
          (case s of
             [] \<Rightarrow> [Gap gap]
           | c # cs \<Rightarrow> scan r (c # rb) (gap @ [c]) cs))"
  by pat_completeness auto
termination
  by (relation "measure (\<lambda>(r, rb, gap, s). length s)") auto

declare scan.simps [simp del]

text \<open>\<open>s.replace(r, f)\<close> with the \<open>g\<close> flag and a replacement function.\<close>

definition replaceAll :: "rx \<Rightarrow> (jsstring \<Rightarrow> jsstring list \<Rightarrow> jsstring) \<Rightarrow> jsstring \<Rightarrow> jsstring" where
  "replaceAll r f s =
     concat (map (\<lambda>p. case p of Gap g \<Rightarrow> g | Match m caps \<Rightarrow> f m caps) (scan r [] [] s))"

section \<open>Options\<close>

text \<open>\<open>ConvertOptions\<close> and the engine's part of \<open>DEFAULT_SETTINGS\<close>.\<close>

record ConvertOptions =
  wrapMatrixEnvsInDisplayMath :: bool
  plainParensAsDelimiters :: bool
  plainBracketsAsDelimiters :: bool
  convertBareInlineLatex :: bool
  wrapBareMathSingleLines :: bool

definition DEFAULT_SETTINGS :: ConvertOptions where
  "DEFAULT_SETTINGS =
     \<lparr> wrapMatrixEnvsInDisplayMath = True,
       plainParensAsDelimiters = False,
       plainBracketsAsDelimiters = False,
       convertBareInlineLatex = False,
       wrapBareMathSingleLines = False \<rparr>"

section \<open>The display-math segmenter\<close>

text \<open>\<open>lineBoundsAt\<close>: the two \<open>while\<close> loops and the step over the line break.\<close>

record bounds =
  ls :: nat
  le :: nat
  adv :: nat

function lineStart :: "jsstring \<Rightarrow> nat \<Rightarrow> nat" where
  "lineStart text s =
     (if s > 0 \<and> charAt text (s - 1) \<noteq> Some NL \<and> charAt text (s - 1) \<noteq> Some CR
      then lineStart text (s - 1) else s)"
  by pat_completeness auto
termination
  by (relation "measure (\<lambda>(text, s). s)") auto

declare lineStart.simps [simp del]

function lineEnd :: "jsstring \<Rightarrow> nat \<Rightarrow> nat" where
  "lineEnd text e =
     (if e < length text \<and> charAt text e \<noteq> Some NL \<and> charAt text e \<noteq> Some CR
      then lineEnd text (e + 1) else e)"
  by pat_completeness auto
termination
  by (relation "measure (\<lambda>(text, e). length text - e)") auto

declare lineEnd.simps [simp del]

definition lineAdv :: "jsstring \<Rightarrow> nat \<Rightarrow> nat" where
  "lineAdv text e =
     (if e < length text \<and> charAt text e = Some CR \<and> charAt text (e + 1) = Some NL then e + 2
      else if e < length text \<and> (charAt text e = Some NL \<or> charAt text e = Some CR) then e + 1
      else e)"

definition lineBoundsAt :: "jsstring \<Rightarrow> nat \<Rightarrow> bounds" where
  "lineBoundsAt text pos =
     \<lparr> ls = lineStart text pos, le = lineEnd text pos, adv = lineAdv text (lineEnd text pos) \<rparr>"

text \<open>\<open>/^\s*\$\$\s*$/\<close>\<close>

definition rxDelimLine :: rx where
  "rxDelimLine = bol \<circ> star isWS \<circ> lit (js ''$$'') \<circ> star isWS \<circ> eol"

definition isDelimLineAt :: "jsstring \<Rightarrow> nat \<Rightarrow> bool" where
  "isDelimLineAt text pos =
     (let b = lineBoundsAt text pos in test rxDelimLine (slice text (ls b) (le b)))"

text \<open>The search for the closing \<open>$$\<close> of a span that opens inside a line.\<close>

function findClose :: "jsstring \<Rightarrow> nat \<Rightarrow> nat" where
  "findClose text j =
     (if j + 1 < length text \<and> \<not> (charAt text j = Some DOLLAR \<and> charAt text (j + 1) = Some DOLLAR)
      then findClose text (j + 1) else j)"
  by pat_completeness auto
termination
  by (relation "measure (\<lambda>(text, j). length text - j)") auto

declare findClose.simps [simp del]

record part =
  inside :: bool
  chunk :: jsstring

lemma lineEnd_ge: "e \<le> lineEnd t e"
proof (induction t e rule: lineEnd.induct)
  case (1 t e)
  show ?case
  proof (cases "e < length t \<and> charAt t e \<noteq> Some NL \<and> charAt t e \<noteq> Some CR")
    case True
    with "1.IH" have "e + 1 \<le> lineEnd t (e + 1)" by simp
    moreover from True have "lineEnd t e = lineEnd t (e + 1)"
      by (subst lineEnd.simps) simp
    ultimately show ?thesis by simp
  next
    case False
    then have "lineEnd t e = e" by (subst lineEnd.simps) auto
    then show ?thesis by simp
  qed
qed

lemma lineEnd_le: "e \<le> length t \<Longrightarrow> lineEnd t e \<le> length t"
proof (induction t e rule: lineEnd.induct)
  case (1 t e)
  show ?case
  proof (cases "e < length t \<and> charAt t e \<noteq> Some NL \<and> charAt t e \<noteq> Some CR")
    case True
    with "1.IH" have "lineEnd t (e + 1) \<le> length t" by simp
    moreover from True have "lineEnd t e = lineEnd t (e + 1)"
      by (subst lineEnd.simps) simp
    ultimately show ?thesis by simp
  next
    case False
    then have "lineEnd t e = e" by (subst lineEnd.simps) auto
    with "1.prems" show ?thesis by simp
  qed
qed

lemma lineEnd_stop:
  "lineEnd t e < length t \<Longrightarrow>
   charAt t (lineEnd t e) = Some NL \<or> charAt t (lineEnd t e) = Some CR"
proof (induction t e rule: lineEnd.induct)
  case (1 t e)
  show ?case
  proof (cases "e < length t \<and> charAt t e \<noteq> Some NL \<and> charAt t e \<noteq> Some CR")
    case True
    then have eq: "lineEnd t e = lineEnd t (e + 1)"
      by (subst lineEnd.simps) simp
    with "1.IH" "1.prems" True show ?thesis by simp
  next
    case False
    then have eq: "lineEnd t e = e" by (subst lineEnd.simps) auto
    with "1.prems" False show ?thesis by (auto simp: charAt_def)
  qed
qed

lemma adv_gt:
  assumes i: "i < length t"
  shows "i < adv (lineBoundsAt t i)"
proof -
  let ?e = "lineEnd t i"
  have ge: "i \<le> ?e" by (rule lineEnd_ge)
  show ?thesis
  proof (cases "?e < length t")
    case True
    from lineEnd_stop[of t i] True have "?e < lineAdv t ?e"
      by (auto simp: lineAdv_def)
    with ge show ?thesis by (simp add: lineBoundsAt_def)
  next
    case False
    with lineEnd_le[of i t] i have "?e = length t" by simp
    then have "lineAdv t ?e = length t" by (simp add: lineAdv_def)
    with i show ?thesis by (simp add: lineBoundsAt_def)
  qed
qed

lemma adv_le:
  assumes i: "i \<le> length t"
  shows "adv (lineBoundsAt t i) \<le> length t"
proof -
  let ?e = "lineEnd t i"
  have le: "?e \<le> length t" using i by (rule lineEnd_le)
  have "lineAdv t ?e \<le> length t"
    using le by (auto simp: lineAdv_def charAt_def split: if_splits)
  then show ?thesis by (simp add: lineBoundsAt_def)
qed

lemma findClose_ge: "j \<le> findClose t j"
proof (induction t j rule: findClose.induct)
  case (1 t j)
  show ?case
  proof (cases "j + 1 < length t \<and> \<not> (charAt t j = Some DOLLAR \<and> charAt t (j + 1) = Some DOLLAR)")
    case True
    with "1.IH" have "j + 1 \<le> findClose t (j + 1)" by simp
    moreover from True have "findClose t j = findClose t (j + 1)"
      by (subst findClose.simps) simp
    ultimately show ?thesis by simp
  next
    case False
    then have "findClose t j = j" by (subst findClose.simps) auto
    then show ?thesis by simp
  qed
qed

text \<open>
  The main loop of \<open>segmentByDisplayMath\<close>, with its variables \<open>i\<close>, \<open>start\<close> and
  \<open>inside\<close>; the parts pushed from here on are returned in order.
\<close>

function segLoop :: "jsstring \<Rightarrow> nat \<Rightarrow> nat \<Rightarrow> bool \<Rightarrow> part list" where
  "segLoop text i start ins =
     (if i < length text then
        (if isDelimLineAt text i then
           (if i > start then [\<lparr> inside = ins, chunk = slice text start i \<rparr>] else [])
           @ [\<lparr> inside = True, chunk = slice text i (adv (lineBoundsAt text i)) \<rparr>]
           @ segLoop text (adv (lineBoundsAt text i)) (adv (lineBoundsAt text i)) (\<not> ins)
         else if charAt text i = Some DOLLAR \<and> charAt text (i + 1) = Some DOLLAR then
           (if i > start then [\<lparr> inside = ins, chunk = slice text start i \<rparr>] else [])
           @ (let j = findClose text (i + 2) in
                if j + 1 \<ge> length text then [\<lparr> inside = ins, chunk = drop i text \<rparr>]
                else [\<lparr> inside = True, chunk = slice text i (j + 2) \<rparr>]
                     @ segLoop text (j + 2) (j + 2) ins)
         else segLoop text (i + 1) start ins)
      else (if start < length text then [\<lparr> inside = ins, chunk = drop start text \<rparr>] else []))"
  by pat_completeness auto
termination
proof (relation "measure (\<lambda>(text, i, start, ins). length text - i)", goal_cases)
  case 1
  show ?case by simp
next
  case (2 t i start ins)
  with adv_gt[of i t] show ?case by simp
next
  case (3 t i start ins x)
  with findClose_ge[of "i + 2" t] show ?case by simp
next
  case (4 t i start ins)
  then show ?case by simp
qed

declare segLoop.simps [simp del]

definition segmentByDisplayMath :: "jsstring \<Rightarrow> part list" where
  "segmentByDisplayMath text = segLoop text 0 0 False"

definition applyOutsideDisplay :: "jsstring \<Rightarrow> (jsstring \<Rightarrow> jsstring) \<Rightarrow> jsstring" where
  "applyOutsideDisplay text transform =
     concat (map (\<lambda>p. if inside p then chunk p else transform (chunk p))
                 (segmentByDisplayMath text))"

section \<open>The guards of the implicit delimiter converter\<close>

text \<open>Character classes \<open>[...]\<close> and \<open>[^...]\<close>.\<close>

definition oneOf :: "jsstring \<Rightarrow> jschar \<Rightarrow> bool" where
  "oneOf cs c \<longleftrightarrow> c \<in> set cs"

definition noneOf :: "jsstring \<Rightarrow> jschar \<Rightarrow> bool" where
  "noneOf cs c \<longleftrightarrow> c \<notin> set cs"

definition words :: "string list \<Rightarrow> rx" where
  "words ws = alts (map (\<lambda>w. lit (js w)) ws)"

definition wordsi :: "string list \<Rightarrow> rx" where
  "wordsi ws = alts (map (\<lambda>w. liti (js w)) ws)"

subsection \<open>\<open>isLatexLike\<close>\<close>

text \<open>\<open>/[\\]/\<close>, \<open>/[=_^]/\<close>, \<open>/[+\-*/]/\<close>, \<open>/[A-Za-z0-9]/\<close>\<close>

definition rxBackslash :: rx where
  "rxBackslash = cls (oneOf [BSL])"

definition rxEqSubSup :: rx where
  "rxEqSubSup = cls (oneOf (js ''=_^''))"

definition rxArith :: rx where
  "rxArith = cls (oneOf (js ''+-*/''))"

definition rxAlnum :: rx where
  "rxAlnum = cls isAlnum"

text \<open>
  The angle brackets U+27E8 and U+27E9; the double bar U+2016 around at least one
  other character; the relation and operator symbols of the fifth test.
\<close>

definition rxAngle :: rx where
  "rxAngle = cls (oneOf [10216, 10217])"

definition rxNorm :: rx where
  "rxNorm = lit [8214] \<circ> plus (noneOf [8214]) \<circ> lit [8214]"

definition mathSyms :: jsstring where
  "mathSyms = [8804, 8805, 8776, 8771, 8773, 8801, 8800, 8594, 8614, 8596, 8658, 8660,
     8733, 8734, 8721, 8747, 8730, 8706, 8711, 8712, 8713, 8834, 8838, 8835, 8839, 8746,
     8745, 8704, 8707]"

definition rxMathSym :: rx where
  "rxMathSym = cls (oneOf mathSyms)"

text \<open>\<open>/\b(sin|cos|...|dim)\b/\<close>\<close>

definition rxFunctionName :: rx where
  "rxFunctionName = wordb \<circ> cap (words [''sin'', ''cos'', ''tan'', ''cot'', ''sec'', ''csc'',
     ''log'', ''ln'', ''exp'', ''min'', ''max'', ''arg'', ''min'', ''max'', ''sup'', ''inf'',
     ''det'', ''rank'', ''tr'', ''trace'', ''diag'', ''span'', ''null'', ''range'', ''im'',
     ''ker'', ''dim'']) \<circ> wordb"

text \<open>\<open>/\\(mathbb|...|bm)\s*\{[A-Za-z0-9]+\}/\<close>, \<open>/\\text\s*\{[^}]+\}/\<close>,
  \<open>/\\operatorname\s*\{[^}]+\}/\<close>\<close>

definition rxFontMacro :: rx where
  "rxFontMacro = lit [BSL] \<circ> cap (words [''mathbb'', ''mathcal'', ''mathrm'', ''mathbf'',
     ''mathit'', ''mathtt'', ''boldsymbol'', ''bm'']) \<circ> star isWS \<circ> lit (js ''{'')
     \<circ> plus isAlnum \<circ> lit (js ''}'')"

definition rxTextMacro :: rx where
  "rxTextMacro = lit (BSL # js ''text'') \<circ> star isWS \<circ> lit (js ''{'')
     \<circ> plus (noneOf (js ''}'')) \<circ> lit (js ''}'')"

definition rxOperatorname :: rx where
  "rxOperatorname = lit (BSL # js ''operatorname'') \<circ> star isWS \<circ> lit (js ''{'')
     \<circ> plus (noneOf (js ''}'')) \<circ> lit (js ''}'')"

text \<open>\<open>/\\(alpha|...|infty)\b/\<close>\<close>

definition rxGreek :: rx where
  "rxGreek = lit [BSL] \<circ> cap (words [''alpha'', ''beta'', ''gamma'', ''delta'', ''epsilon'',
     ''varepsilon'', ''zeta'', ''eta'', ''theta'', ''vartheta'', ''iota'', ''kappa'', ''lambda'',
     ''mu'', ''nu'', ''xi'', ''pi'', ''varpi'', ''rho'', ''sigma'', ''varsigma'', ''tau'',
     ''upsilon'', ''phi'', ''varphi'', ''chi'', ''psi'', ''omega'', ''partial'', ''nabla'',
     ''sum'', ''int'', ''prod'', ''frac'', ''sqrt'', ''binom'', ''cdot'', ''times'', ''div'',
     ''over'', ''lim'', ''to'', ''infty'']) \<circ> wordb"

text \<open>\<open>/\\begin\{(?:bmatrix|...|split)\}/\<close>\<close>

definition rxBeginEnv :: rx where
  "rxBeginEnv = lit (BSL # js ''begin{'') \<circ> words [''bmatrix'', ''pmatrix'', ''vmatrix'',
     ''Vmatrix'', ''matrix'', ''smallmatrix'', ''cases'', ''array'', ''align'', ''aligned'',
     ''gather'', ''split''] \<circ> lit (js ''}'')"

text \<open>\<open>/\[[^[\]]+,[^[\]]+\]/\<close>, \<open>/[A-Za-z]\s*[_^]\s*[0-9A-Za-z]/\<close>,
  \<open>/[A-Za-z]\s*\([^)]*\)/\<close>\<close>

definition rxListPair :: rx where
  "rxListPair = lit (js ''['') \<circ> plus (noneOf (js ''[]'')) \<circ> lit (js '','')
     \<circ> plus (noneOf (js ''[]'')) \<circ> lit (js '']'')"

definition rxSubSup :: rx where
  "rxSubSup = cls isAlpha \<circ> star isWS \<circ> cls (oneOf (js ''_^'')) \<circ> star isWS \<circ> cls isAlnum"

definition rxCall :: rx where
  "rxCall = cls isAlpha \<circ> star isWS \<circ> lit (js ''('') \<circ> star (noneOf (js '')''))
     \<circ> lit (js '')'')"

definition isLatexLike :: "jsstring \<Rightarrow> bool" where
  "isLatexLike s =
     (if test rxBackslash s then True
      else if test rxEqSubSup s then True
      else if test rxArith s \<and> test rxAlnum s then True
      else if test rxAngle s \<or> test rxNorm s then True
      else if test rxMathSym s then True
      else if test rxFunctionName s then True
      else if test rxFontMacro s then True
      else if test rxTextMacro s then True
      else if test rxOperatorname s then True
      else if test rxGreek s then True
      else if test rxBeginEnv s then True
      else if test rxListPair s \<and> test rxAlnum s then True
      else if test rxSubSup s then True
      else if test rxCall s then True
      else False)"

subsection \<open>\<open>contextIsMathy\<close>\<close>

text \<open>\<open>s.slice(-n)\<close>: the last \<open>n\<close> code units.\<close>

definition sliceLast :: "jsstring \<Rightarrow> nat \<Rightarrow> jsstring" where
  "sliceLast s n = drop (length s - n) s"

text \<open>\<open>/[\\=_^]|[\u2200-\u22FF]/\<close>\<close>

definition rxMathChar :: rx where
  "rxMathChar = alt (cls (oneOf (BSL # js ''=_^''))) (cls (\<lambda>c. 8704 \<le> c \<and> c \<le> 8959))"

text \<open>\<open>/\b(ODE|PDE|...|curl)\b/i\<close>\<close>

definition rxMathNoun :: rx where
  "rxMathNoun = wordb \<circ> cap (wordsi [''ODE'', ''PDE'', ''Fourier'', ''Taylor'', ''polynomial'',
     ''series'', ''equation'', ''matrix'', ''vector'', ''operator'', ''rank'', ''dimension'',
     ''basis'', ''eigen'', ''SVD'', ''distribution'', ''probability'', ''variance'',
     ''expectation'', ''gradient'', ''divergence'', ''curl'']) \<circ> wordb"

text \<open>\<open>/^\s*(?:-?\s*order|th|st|nd|rd|dim|degree|term|mode|harmonic|eigen|component)\b/i\<close>\<close>

definition rxOrdinal :: rx where
  "rxOrdinal = bol \<circ> star isWS
     \<circ> alt (opt (lit (js ''-'')) \<circ> star isWS \<circ> liti (js ''order''))
           (wordsi [''th'', ''st'', ''nd'', ''rd'', ''dim'', ''degree'', ''term'', ''mode'',
              ''harmonic'', ''eigen'', ''component''])
     \<circ> wordb"

definition contextIsMathy :: "jsstring \<Rightarrow> jsstring \<Rightarrow> bool" where
  "contextIsMathy before after =
     (let window = sliceLast (before @ js '' '' @ after) 120 in
      if test rxMathChar window then True
      else if test rxMathNoun window then True
      else if test rxOrdinal after then True
      else False)"

subsection \<open>\<open>isSafeParens\<close> and \<open>isSafeBrackets\<close>\<close>

text \<open>\<open>/^(?:[a-z]|[ivxlcdm]+|\d+)\)?\s*(?:$|[,\.;:!?\u2013\u2014-]\s)/i\<close>\<close>

definition isRomanI :: "jschar \<Rightarrow> bool" where
  "isRomanI c \<longleftrightarrow> oneOf (js ''IVXLCDM'') (upperAscii c)"

definition rxEnumeration :: rx where
  "rxEnumeration = bol \<circ> alts [cls isAlpha, plus isRomanI, plus isDigit]
     \<circ> opt (lit (js '')'')) \<circ> star isWS
     \<circ> alt eol (cls (oneOf (js '',.;:!?'' @ [8211, 8212] @ js ''-'')) \<circ> cls isWS)"

text \<open>\<open>/^(?:note|notes|see|ref|fig|figure|table|section|chapter|appendix)\b/i\<close>\<close>

definition rxNoteWord :: rx where
  "rxNoteWord = bol \<circ> wordsi [''note'', ''notes'', ''see'', ''ref'', ''fig'', ''figure'',
     ''table'', ''section'', ''chapter'', ''appendix''] \<circ> wordb"

text \<open>\<open>/^[A-Za-z]$/\<close>\<close>

definition rxSingleLetter :: rx where
  "rxSingleLetter = bol \<circ> cls isAlpha \<circ> eol"

definition isSafeParens :: "jsstring \<Rightarrow> jsstring \<Rightarrow> jsstring \<Rightarrow> jsstring \<Rightarrow> bool" where
  "isSafeParens content before after match =
     (if test rxEnumeration content then False
      else if test rxNoteWord content then False
      else if isLatexLike content then True
      else if test rxSingleLetter content \<and> contextIsMathy before after then True
      else False)"

text \<open>\<open>/^!?\[.*\]\(.*\)$/\<close>, \<open>/^\^[^\]]+$/\<close>, \<open>/^\s*!\s*[^[]/\<close>\<close>

definition rxLinkOrImage :: rx where
  "rxLinkOrImage = bol \<circ> opt (lit (js ''!'')) \<circ> lit (js ''['') \<circ> star isDot
     \<circ> lit (js '']('') \<circ> star isDot \<circ> lit (js '')'') \<circ> eol"

definition rxFootnote :: rx where
  "rxFootnote = bol \<circ> lit (js ''^'') \<circ> plus (noneOf (js '']'')) \<circ> eol"

definition rxImageStarter :: rx where
  "rxImageStarter = bol \<circ> star isWS \<circ> lit (js ''!'') \<circ> star isWS \<circ> cls (noneOf (js ''[''))"

definition isSafeBrackets :: "jsstring \<Rightarrow> jsstring \<Rightarrow> jsstring \<Rightarrow> jsstring \<Rightarrow> bool" where
  "isSafeBrackets content before after match =
     (if test rxLinkOrImage (before @ match @ after) then False
      else if test rxFootnote content then False
      else if test rxImageStarter before then False
      else isLatexLike content)"

section \<open>The implicit delimiter converter\<close>

text \<open>
  The loop of \<open>convertOutermostInline\<close> with its variables \<open>out\<close>, \<open>lastEmit\<close>,
  \<open>depth\<close> and \<open>start\<close> (\<open>-1\<close> when no span is open).
\<close>

function coiLoop ::
  "jsstring \<Rightarrow> jschar \<Rightarrow> jschar \<Rightarrow> (jsstring \<Rightarrow> jsstring \<Rightarrow> jsstring \<Rightarrow> jsstring \<Rightarrow> bool)
   \<Rightarrow> nat \<Rightarrow> jsstring \<Rightarrow> nat \<Rightarrow> nat \<Rightarrow> int \<Rightarrow> jsstring" where
  "coiLoop text openCh closeCh guard i out lastEmit depth start =
     (if i < length text then
        (let ch = text ! i in
         if ch = openCh then
           coiLoop text openCh closeCh guard (i + 1) out lastEmit (depth + 1)
             (if depth = 0 then int i else start)
         else if ch = closeCh \<and> depth > 0 then
           (if depth - 1 = 0 \<and> start \<ge> 0 then
              (let original = slice text (nat start) (i + 1);
                   inner = slice text (nat start + 1) i;
                   trimmed = trim inner;
                   beforeCtx = slice text (nat (max 0 (start - 60))) (nat start);
                   afterCtx = slice text (i + 1) (min (length text) (i + 1 + 60));
                   replaceWithMath = guard trimmed beforeCtx afterCtx original;
                   replacement = (if replaceWithMath then js ''$'' @ trimmed @ js ''$'' else original)
               in coiLoop text openCh closeCh guard (i + 1)
                    (out @ slice text lastEmit (nat start) @ replacement) (i + 1) (depth - 1) (- 1))
            else coiLoop text openCh closeCh guard (i + 1) out lastEmit (depth - 1) start)
         else coiLoop text openCh closeCh guard (i + 1) out lastEmit depth start)
      else (if lastEmit < length text then out @ drop lastEmit text else out))"
  by pat_completeness auto
termination
  by (relation "measure (\<lambda>(text, openCh, closeCh, guard, i, out, lastEmit, depth, start).
        length text - i)") auto

declare coiLoop.simps [simp del]

definition convertOutermostInline ::
  "jsstring \<Rightarrow> jschar \<Rightarrow> jschar \<Rightarrow> (jsstring \<Rightarrow> jsstring \<Rightarrow> jsstring \<Rightarrow> jsstring \<Rightarrow> bool)
   \<Rightarrow> jsstring" where
  "convertOutermostInline text openCh closeCh guard =
     coiLoop text openCh closeCh guard 0 [] 0 0 (- 1)"

definition convertInlineDelims :: "jsstring \<Rightarrow> ConvertOptions \<Rightarrow> jsstring" where
  "convertInlineDelims text opts =
     (let text1 = (if plainParensAsDelimiters opts
                   then convertOutermostInline text 40 41 isSafeParens else text);
          text2 = (if plainBracketsAsDelimiters opts
                   then convertOutermostInline text1 91 93 isSafeBrackets else text1)
      in text2)"

section \<open>The bare-line promoter\<close>

text \<open>
  \<open>s.split(r)\<close>: the texts between the matches, with the captures of each match
  between them; \<open>xs.join(sep)\<close>; \<open>(s.match(r) || []).length\<close> with the \<open>g\<close> flag.
\<close>

definition splitRx :: "rx \<Rightarrow> jsstring \<Rightarrow> jsstring list" where
  "splitRx r s =
     concat (map (\<lambda>p. case p of Gap g \<Rightarrow> [g] | Match m caps \<Rightarrow> caps) (scan r [] [] s))"

fun joinWith :: "jsstring \<Rightarrow> jsstring list \<Rightarrow> jsstring" where
  "joinWith sep [] = []"
| "joinWith sep [x] = x"
| "joinWith sep (x # y # zs) = x @ sep @ joinWith sep (y # zs)"

definition countMatches :: "rx \<Rightarrow> jsstring \<Rightarrow> nat" where
  "countMatches r s =
     length (filter (\<lambda>p. case p of Gap g \<Rightarrow> False | Match m caps \<Rightarrow> True) (scan r [] [] s))"

text \<open>\<open>/\r?\n/\<close>\<close>

definition rxLineBreak :: rx where
  "rxLineBreak = opt (lit [CR]) \<circ> lit [NL]"

text \<open>\<open>isHr\<close>: \<open>/^(\*{3,}|-{3,}|_{3,})$/\<close>\<close>

definition rxHr :: rx where
  "rxHr = bol \<circ> cap (alts [lit (js ''***'') \<circ> star (oneOf (js ''*'')),
                             lit (js ''---'') \<circ> star (oneOf (js ''-'')),
                             lit (js ''___'') \<circ> star (oneOf (js ''_''))]) \<circ> eol"

definition isHr :: "jsstring \<Rightarrow> bool" where
  "isHr s = test rxHr s"

definition isAlreadyMathDelim :: "jsstring \<Rightarrow> bool" where
  "isAlreadyMathDelim s \<longleftrightarrow> trim s = js ''$$''"

text \<open>
  The tests of \<open>isMathLine\<close>: \<open>/\$/\<close>, \<open>/^#{1,6}\s/\<close>, \<open>/^[-*\u2022]\s+/\<close> (the bullet
  is U+2022), \<open>/^\$.*\$$/\<close>, \<open>/^\$\$[\s\S]*\$\$$/\<close>, \<open>/[=^_]/\<close>, \<open>/\\[A-Za-z]+/\<close>,
  \<open>/[+\-*/]/\<close> and \<open>/\b[A-Za-z]{2,}\b/g\<close>.
\<close>

definition rxDollar :: rx where
  "rxDollar = lit (js ''$'')"

definition rxHeading :: rx where
  "rxHeading = bol \<circ> cls (oneOf (js ''#'')) \<circ> upto 5 (oneOf (js ''#'')) \<circ> cls isWS"

definition rxBullet :: rx where
  "rxBullet = bol \<circ> cls (oneOf (js ''-*'' @ [8226])) \<circ> plus isWS"

definition rxInlineWrapped :: rx where
  "rxInlineWrapped = bol \<circ> lit (js ''$'') \<circ> star isDot \<circ> lit (js ''$'') \<circ> eol"

definition rxDisplayWrapped :: rx where
  "rxDisplayWrapped = bol \<circ> lit (js ''$$'') \<circ> star isAny \<circ> lit (js ''$$'') \<circ> eol"

definition rxMathToken :: rx where
  "rxMathToken = cls (oneOf (js ''=^_''))"

definition rxCommand :: rx where
  "rxCommand = lit [BSL] \<circ> plus isAlpha"

definition rxWordy :: rx where
  "rxWordy = wordb \<circ> cls isAlpha \<circ> cls isAlpha \<circ> star isAlpha \<circ> wordb"

definition isMathLine :: "jsstring \<Rightarrow> bool" where
  "isMathLine s =
     (if test rxDollar s then False
      else (let t = trim s in
        if t = [] then False
        else if test rxHeading t then False
        else if test rxBullet t then False
        else if isHr t then False
        else if test rxInlineWrapped t \<or> test rxDisplayWrapped t then False
        else (let hasMathToken = (test rxMathToken t \<or> test rxCommand t \<or> test rxArith t);
                  words = countMatches rxWordy t
              in hasMathToken \<and> words \<le> 4)))"

text \<open>The body of the \<open>for\<close> loop of \<open>wrapBareMathLines\<close>: what line \<open>i\<close> pushes.\<close>

definition wrapLine :: "jsstring list \<Rightarrow> nat \<Rightarrow> jsstring list" where
  "wrapLine lines i =
     (let prevIsDelim = (i > 0 \<and> isAlreadyMathDelim (trim (lines ! (i - 1))));
          nextIsDelim = (i + 1 < length lines \<and> isAlreadyMathDelim (trim (lines ! (i + 1))))
      in if isMathLine (lines ! i) \<and> \<not> prevIsDelim \<and> \<not> nextIsDelim
         then [js ''$$'', trimEnd (lines ! i), js ''$$'']
         else [lines ! i])"

definition wrapBareMathLines :: "jsstring \<Rightarrow> jsstring" where
  "wrapBareMathLines segment =
     (let lines = splitRx rxLineBreak segment;
          out = concat (map (wrapLine lines) [0..<length lines])
      in joinWith [NL] out)"

text \<open>\<open>/(\$\$[\s\S]*?\$\$)/g\<close>; the loop of \<open>wrapBareMathLinesOutside\<close> rewrites the parts
  with an even index.\<close>

definition rxDisplaySpan :: rx where
  "rxDisplaySpan = cap (lit (js ''$$'') \<circ> lazy isAny \<circ> lit (js ''$$''))"

fun mapEven :: "('a \<Rightarrow> 'a) \<Rightarrow> 'a list \<Rightarrow> 'a list" where
  "mapEven f [] = []"
| "mapEven f [x] = [f x]"
| "mapEven f (x # y # zs) = f x # y # mapEven f zs"

definition wrapBareMathLinesOutside :: "jsstring \<Rightarrow> jsstring" where
  "wrapBareMathLinesOutside text =
     concat (mapEven wrapBareMathLines (splitRx rxDisplaySpan text))"

section \<open>The bare token wrapper\<close>

text \<open>\<open>/^\s*\$\$\s*$/m\<close>\<close>

definition rxDelimLineM :: rx where
  "rxDelimLineM = bolM \<circ> star isWS \<circ> lit (js ''$$'') \<circ> star isWS \<circ> eolM"

text \<open>\<open>/(?<!\$)\b(\d+)\s*\^\s*\\circ\b(?!\$)/g\<close>\<close>

definition rxDegree :: rx where
  "rxDegree = nbehind (js ''$'') \<circ> wordb \<circ> cap (plus isDigit) \<circ> star isWS \<circ> lit (js ''^'')
     \<circ> star isWS \<circ> lit (BSL # js ''circ'') \<circ> wordb \<circ> nahead (lit (js ''$''))"

text \<open>\<open>/(?<!\$)(\\sqrt\s*\{[^}]+\})(?!\$)/g\<close>\<close>

definition rxSqrt :: rx where
  "rxSqrt = nbehind (js ''$'')
     \<circ> cap (lit (BSL # js ''sqrt'') \<circ> star isWS \<circ> lit (js ''{'') \<circ> plus (noneOf (js ''}''))
            \<circ> lit (js ''}''))
     \<circ> nahead (lit (js ''$''))"

text \<open>\<open>/(?<!\$)(\\frac\s*\{[^}]+\}\s*\{[^}]+\})(?!\$)/g\<close>\<close>

definition rxFrac :: rx where
  "rxFrac = nbehind (js ''$'')
     \<circ> cap (lit (BSL # js ''frac'') \<circ> star isWS \<circ> lit (js ''{'') \<circ> plus (noneOf (js ''}''))
            \<circ> lit (js ''}'') \<circ> star isWS \<circ> lit (js ''{'') \<circ> plus (noneOf (js ''}''))
            \<circ> lit (js ''}''))
     \<circ> nahead (lit (js ''$''))"

text \<open>\<open>/(?<!\$)\b([A-Za-z])\s*([_^])\s*([A-Za-z0-9]+)\b(?=\s*[=+\-*/,:;.)]|$)(?!\$)/g\<close>\<close>

definition rxScript :: rx where
  "rxScript = nbehind (js ''$'') \<circ> wordb \<circ> cap (cls isAlpha) \<circ> star isWS
     \<circ> cap (cls (oneOf (js ''_^''))) \<circ> star isWS \<circ> cap (plus isAlnum) \<circ> wordb
     \<circ> ahead (alt (star isWS \<circ> cls (oneOf (js ''=+-*/,:;.)''))) eol)
     \<circ> nahead (lit (js ''$''))"

definition wrapInlineBareLatex :: "jsstring \<Rightarrow> jsstring" where
  "wrapInlineBareLatex segment =
     (if test rxDelimLineM segment then segment
      else (let segment1 = replaceAll rxDegree
                  (\<lambda>m caps. js ''$'' @ caps ! 0 @ js ''^{'' @ BSL # js ''circ}$'') segment;
                segment2 = replaceAll rxSqrt (\<lambda>m caps. js ''$'' @ caps ! 0 @ js ''$'') segment1;
                segment3 = replaceAll rxFrac (\<lambda>m caps. js ''$'' @ caps ! 0 @ js ''$'') segment2;
                segment4 = replaceAll rxScript
                  (\<lambda>m caps. js ''$'' @ caps ! 0 @ caps ! 1 @ caps ! 2 @ js ''$'') segment3
            in segment4))"

section \<open>The pipeline\<close>

text \<open>\<open>/\\\((.*?)\\\)/g\<close> and \<open>/\\\[(.*?)\\\]/gs\<close>\<close>

definition rxInlineParen :: rx where
  "rxInlineParen = lit (BSL # js ''('') \<circ> cap (lazy isDot) \<circ> lit (BSL # js '')'')"

definition rxDisplayBracket :: rx where
  "rxDisplayBracket = lit (BSL # js ''['') \<circ> cap (lazy isAny) \<circ> lit (BSL # js '']'')"

text \<open>\<open>/(^|\n)[ \t]*\[[ \t]*\n([\s\S]*?)\n[ \t]*\][ \t]*(?=\n|$)/g\<close>\<close>

definition rxBracketLines :: rx where
  "rxBracketLines = cap (alt bol (lit [NL])) \<circ> star isBlank \<circ> lit (js ''['') \<circ> star isBlank
     \<circ> lit [NL] \<circ> cap (lazy isAny) \<circ> lit [NL] \<circ> star isBlank \<circ> lit (js '']'')
     \<circ> star isBlank \<circ> ahead (alt (lit [NL]) eol)"

text \<open>\<open>/(^|\n)([ \t]*)\\begin\{(bmatrix|...|aligned)\}([\s\S]*?)\\end\{\3\}/g\<close>\<close>

definition rxEnv :: rx where
  "rxEnv = cap (alt bol (lit [NL])) \<circ> cap (star isBlank) \<circ> lit (BSL # js ''begin{'')
     \<circ> cap (words [''bmatrix'', ''pmatrix'', ''vmatrix'', ''Vmatrix'', ''matrix'',
                   ''smallmatrix'', ''cases'', ''array'', ''align'', ''aligned''])
     \<circ> lit (js ''}'') \<circ> cap (lazy isAny) \<circ> lit (BSL # js ''end{'') \<circ> backref 2
     \<circ> lit (js ''}'')"

definition processMath :: "jsstring \<Rightarrow> ConvertOptions \<Rightarrow> jsstring" where
  "processMath text opts =
     (let text1 = replaceAll rxInlineParen
                    (\<lambda>m caps. js ''$'' @ trim (caps ! 0) @ js ''$'') text;
          text2 = replaceAll rxDisplayBracket
                    (\<lambda>m caps. NL # js ''$$'' @ NL # trim (caps ! 0) @ NL # js ''$$'' @ [NL]) text1;
          text3 = replaceAll rxBracketLines
                    (\<lambda>m caps. caps ! 0 @ js ''$$'' @ NL # trim (caps ! 1) @ NL # js ''$$'') text2;
          text4 = (if wrapMatrixEnvsInDisplayMath opts
                   then replaceAll rxEnv
                          (\<lambda>m caps. caps ! 0 @ js ''$$'' @ NL # caps ! 1 @ BSL # js ''begin{''
                              @ caps ! 2 @ js ''}'' @ caps ! 3 @ BSL # js ''end{'' @ caps ! 2
                              @ js ''}'' @ NL # js ''$$'') text3
                   else text3);
          text5 = (if wrapBareMathSingleLines opts then wrapBareMathLinesOutside text4 else text4);
          text6 = applyOutsideDisplay text5 (\<lambda>seg. convertInlineDelims seg opts);
          text7 = (if convertBareInlineLatex opts
                   then applyOutsideDisplay text6 (\<lambda>seg. wrapInlineBareLatex seg) else text6)
      in text7)"

text \<open>\<open>/https?:\/\/[^\s)]+/g\<close>\<close>

definition urlRegex :: rx where
  "urlRegex = lit (js ''http'') \<circ> opt (lit (js ''s'')) \<circ> lit (js ''://'')
     \<circ> plus (\<lambda>c. \<not> isWS c \<and> c \<noteq> 41)"

definition processOutsideCode :: "jsstring \<Rightarrow> ConvertOptions \<Rightarrow> jsstring" where
  "processOutsideCode text opts =
     concat (map (\<lambda>p. case p of
                    Gap g \<Rightarrow> if g \<noteq> [] then processMath g opts else []
                  | Match m caps \<Rightarrow> m)
                 (scan urlRegex [] [] text))"

text \<open>\<open>/(?:^|\n)[ \t]*\n[ \t]*(?=\$\$)/g\<close> and \<open>/(?<=\$\$)\n[ \t]*\n/g\<close>\<close>

definition rxBlankBefore :: rx where
  "rxBlankBefore = alt bol (lit [NL]) \<circ> star isBlank \<circ> lit [NL] \<circ> star isBlank
     \<circ> ahead (lit (js ''$$''))"

definition rxBlankAfter :: rx where
  "rxBlankAfter = behind (js ''$$'') \<circ> lit [NL] \<circ> star isBlank \<circ> lit [NL]"

definition trimEmptyLinesAroundBlockMath :: "jsstring \<Rightarrow> jsstring" where
  "trimEmptyLinesAroundBlockMath input =
     replaceAll rxBlankAfter (\<lambda>m caps. [NL]) (replaceAll rxBlankBefore (\<lambda>m caps. [NL]) input)"

text \<open>\<open>/^https?:\/\/\S+$/\<close>, \<open>/^\[.*?\]\(.*?\)$/\<close>, \<open>/^https?:\/\/[^\s\[]+\[.*?\]\(.*?\)/\<close>
  and \<open>/```[\s\S]*?```/g\<close>\<close>

definition rxRawUrl :: rx where
  "rxRawUrl = bol \<circ> lit (js ''http'') \<circ> opt (lit (js ''s'')) \<circ> lit (js ''://'')
     \<circ> plus (\<lambda>c. \<not> isWS c) \<circ> eol"

definition rxMarkdownLink :: rx where
  "rxMarkdownLink = bol \<circ> lit (js ''['') \<circ> lazy isDot \<circ> lit (js '']('') \<circ> lazy isDot
     \<circ> lit (js '')'') \<circ> eol"

definition rxCombined :: rx where
  "rxCombined = bol \<circ> lit (js ''http'') \<circ> opt (lit (js ''s'')) \<circ> lit (js ''://'')
     \<circ> plus (\<lambda>c. \<not> isWS c \<and> c \<noteq> 91) \<circ> lit (js ''['') \<circ> lazy isDot \<circ> lit (js '']('')
     \<circ> lazy isDot \<circ> lit (js '')'')"

definition codeFenceRegex :: rx where
  "codeFenceRegex = lit (js ''```'') \<circ> lazy isAny \<circ> lit (js ''```'')"

definition convertKatexToMathJax :: "jsstring \<Rightarrow> ConvertOptions \<Rightarrow> jsstring" where
  "convertKatexToMathJax input opts =
     (let trimmed = trim input;
          isRawUrl = test rxRawUrl trimmed;
          isMarkdownLink = test rxMarkdownLink trimmed;
          isCombined = test rxCombined trimmed
      in if isRawUrl \<or> isMarkdownLink \<or> isCombined then input
         else (let segments = map (\<lambda>p. case p of
                                 Gap g \<Rightarrow> if g \<noteq> [] then processOutsideCode g opts else []
                               | Match m caps \<Rightarrow> m)
                              (scan codeFenceRegex [] [] input)
               in trimEmptyLinesAroundBlockMath (concat segments)))"

section \<open>The segmenter partitions its input\<close>

lemma slice_drop: "a \<le> b \<Longrightarrow> slice t a b @ drop b t = drop a t"
proof -
  assume ab: "a \<le> b"
  have "take (b - a) (drop a t) @ drop (b - a) (drop a t) = drop a t"
    by (rule append_take_drop_id)
  with ab show ?thesis by (simp add: slice_def)
qed

lemma segLoop_concat:
  "start \<le> i \<Longrightarrow> i \<le> length t \<Longrightarrow> concat (map chunk (segLoop t i start ins)) = drop start t"
proof (induction t i start ins rule: segLoop.induct)
  case (1 t i start ins)
  show ?case
  proof (cases "i < length t")
    case False
    then show ?thesis using "1.prems" by (subst segLoop.simps) simp
  next
    case lt: True
    show ?thesis
    proof (cases "isDelimLineAt t i")
      case True
      let ?a = "adv (lineBoundsAt t i)"
      have a1: "i < ?a" using lt by (rule adv_gt)
      have a2: "?a \<le> length t" using "1.prems"(2) by (rule adv_le)
      have ih: "concat (map chunk (segLoop t ?a ?a (\<not> ins))) = drop ?a t"
        using "1.IH"(1)[OF lt True] a2 by simp
      have "slice t i ?a @ drop ?a t = drop i t" using a1 by (simp add: slice_drop)
      moreover have "slice t start i @ drop i t = drop start t"
        using "1.prems"(1) by (simp add: slice_drop)
      ultimately show ?thesis using lt True ih "1.prems"(1)
        by (subst segLoop.simps) (auto simp: not_less)
    next
      case nd: False
      show ?thesis
      proof (cases "charAt t i = Some DOLLAR \<and> charAt t (i + 1) = Some DOLLAR")
        case True
        let ?j = "findClose t (i + 2)"
        have j1: "i + 2 \<le> ?j" by (rule findClose_ge)
        have pre: "slice t start i @ drop i t = drop start t"
          using "1.prems"(1) by (simp add: slice_drop)
        show ?thesis
        proof (cases "length t \<le> ?j + 1")
          case True
          with lt nd \<open>charAt t i = Some DOLLAR \<and> charAt t (i + 1) = Some DOLLAR\<close> pre "1.prems"(1)
          show ?thesis by (subst segLoop.simps) (auto simp: Let_def not_less)
        next
          case False
          then have j2: "?j + 2 \<le> length t" by simp
          have ih: "concat (map chunk (segLoop t (?j + 2) (?j + 2) ins)) = drop (?j + 2) t"
            using "1.IH"(2)[OF lt nd True refl] False j2 by simp
          have "slice t i (?j + 2) @ drop (?j + 2) t = drop i t"
            using j1 by (simp add: slice_drop)
          with lt nd \<open>charAt t i = Some DOLLAR \<and> charAt t (i + 1) = Some DOLLAR\<close> pre False ih "1.prems"(1)
          show ?thesis by (subst segLoop.simps) (auto simp: Let_def not_less)
        qed
      next
        case False
        have ih: "concat (map chunk (segLoop t (i + 1) start ins)) = drop start t"
          using "1.IH"(3)[OF lt nd False] "1.prems" lt by simp
        with lt nd False show ?thesis by (subst segLoop.simps) auto
      qed
    qed
  qed
qed

lemma chunks_concat: "concat (map chunk (segmentByDisplayMath t)) = t"
  using segLoop_concat[of 0 0 t False] by (simp add: segmentByDisplayMath_def)

lemma applyOutsideDisplay_ident: "applyOutsideDisplay t (\<lambda>seg. seg) = t"
proof -
  have "map (\<lambda>p. if inside p then chunk p else chunk p) (segmentByDisplayMath t)
    = map chunk (segmentByDisplayMath t)" by simp
  then show ?thesis by (simp add: applyOutsideDisplay_def chunks_concat)
qed

text \<open>
  Claim C10. For every input the chunks returned by \<open>segmentByDisplayMath\<close>, concatenated in
  order, are the input itself: nothing is lost, duplicated or reordered. Hence
  \<open>applyOutsideDisplay\<close> with the identity transform is the identity.
\<close>

theorem segmentByDisplayMath_partition:
  "concat (map chunk (segmentByDisplayMath text)) = text
   \<and> applyOutsideDisplay text (\<lambda>seg. seg) = text"
  by (simp add: chunks_concat applyOutsideDisplay_ident)

theorem segmentByDisplayMath_partition_witness:
  "concat (map chunk (segmentByDisplayMath (js ''a $$ b $$ c''))) = js ''a $$ b $$ c''
   \<and> applyOutsideDisplay (js ''a $$ b $$ c'') (\<lambda>seg. seg) = js ''a $$ b $$ c''"
  using segmentByDisplayMath_partition [of "js ''a $$ b $$ c''"] by simp

section \<open>Evaluation on concrete texts\<close>

lemmas ev_chars = js_def isWS_def isLT_def isDot_def isAny_def isBlank_def isDigit_def
  isUpper_def isLower_def isAlpha_def isAlnum_def isWord_def upperAscii_def oneOf_def
  noneOf_def isRomanI_def mathSyms_def

lemmas ev_rx = accept_def plus_def alt_def opt_def cap_def backref_def bol_def eol_def
  bolM_def eolM_def atWordBoundary_def wordb_def ahead_def nahead_def behind_def nbehind_def
  matchAt_def test_def words_def wordsi_def scan.simps replaceAll_def splitRx_def
  countMatches_def

lemmas ev_str = trimStart_def trimEnd_def trim_def slice_def charAt_def sliceLast_def Let_def


lemmas ev = ev_chars ev_rx ev_str

section \<open>What a match consumes\<close>

text \<open>
  \<open>consumes M r\<close>: whenever \<open>r\<close> succeeds, it has called the rest of the expression
  after a prefix \<open>m\<close> of the text with \<open>M m\<close>, and with the left context extended by
  \<open>m\<close>.
\<close>

definition consumes :: "(jsstring \<Rightarrow> bool) \<Rightarrow> rx \<Rightarrow> bool" where
  "consumes M r \<longleftrightarrow>
     (\<forall>k caps rb s x. r k caps rb s = Some x \<longrightarrow>
        (\<exists>caps' m s'. s = m @ s' \<and> M m \<and> k caps' (rev m @ rb) s' = Some x))"

lemma consumesI:
  assumes "\<And>k caps rb s x. r k caps rb s = Some x \<Longrightarrow>
             \<exists>caps' m s'. s = m @ s' \<and> M m \<and> k caps' (rev m @ rb) s' = Some x"
  shows "consumes M r"
  unfolding consumes_def
proof (intro allI impI)
  fix k caps rb s x
  assume "r k caps rb s = Some x"
  then show "\<exists>caps' m s'. s = m @ s' \<and> M m \<and> k caps' (rev m @ rb) s' = Some x"
    by (rule assms)
qed

lemma consumes_raw:
  assumes "consumes M r" and "r k caps rb s = Some x"
  shows "\<exists>caps' m s'. s = m @ s' \<and> M m \<and> k caps' (rev m @ rb) s' = Some x"
  using assms(1)[unfolded consumes_def, rule_format, OF assms(2)] .

lemma consumesD:
  assumes "consumes M r" and "r k caps rb s = Some x"
  obtains caps' m s' where "s = m @ s'" and "M m" and "k caps' (rev m @ rb) s' = Some x"
proof -
  from consumes_raw[OF assms] obtain caps' m s' where
    a: "s = m @ s'" and b: "M m" and c: "k caps' (rev m @ rb) s' = Some x" by (elim exE conjE)
  show ?thesis by (rule that[OF a b c])
qed

lemma consumes_weaken:
  assumes "consumes M r" and "\<And>m. M m \<Longrightarrow> M' m"
  shows "consumes M' r"
proof (rule consumesI)
  fix k caps rb s x
  assume "r k caps rb s = Some x"
  from consumesD[OF assms(1) this] obtain caps' m s' where
    "s = m @ s'" "M m" "k caps' (rev m @ rb) s' = Some x" .
  with assms(2) show "\<exists>caps' m s'. s = m @ s' \<and> M' m \<and> k caps' (rev m @ rb) s' = Some x"
    by (intro exI[of _ caps'] exI[of _ m] exI[of _ s']) simp
qed

lemma lit_Some:
  "lit p k caps rb s = Some x \<Longrightarrow> \<exists>s'. s = p @ s' \<and> k caps (rev p @ rb) s' = Some x"
proof (induction p arbitrary: rb s)
  case Nil
  then show ?case by simp
next
  case (Cons a p)
  then show ?case by (cases s) (auto split: if_splits)
qed

lemma lit_append: "lit p k caps rb (p @ s) = k caps (rev p @ rb) s"
  by (induction p arbitrary: rb) auto

lemma consumes_lit: "consumes (\<lambda>m. m = p) (lit p)"
proof (rule consumesI)
  fix k caps rb s x
  assume "lit p k caps rb s = Some x"
  from lit_Some[OF this] obtain s' where
    "s = p @ s'" "k caps (rev p @ rb) s' = Some x" by (elim exE conjE)
  then show "\<exists>caps' m s'. s = m @ s' \<and> m = p \<and> k caps' (rev m @ rb) s' = Some x"
    by (intro exI[of _ caps] exI[of _ p] exI[of _ s']) simp
qed

lemma liti_Some:
  "liti p k caps rb s = Some x \<Longrightarrow>
   \<exists>m s'. s = m @ s' \<and> length m = length p \<and> k caps (rev m @ rb) s' = Some x"
proof (induction p arbitrary: rb s)
  case Nil
  then show ?case by simp
next
  case (Cons a p)
  show ?case
  proof (cases s)
    case Nil
    with Cons.prems show ?thesis by simp
  next
    case (Cons c cs)
    with Cons.prems have "liti p k caps (c # rb) cs = Some x" by (auto split: if_splits)
    from Cons.IH[OF this] obtain m s' where
      "cs = m @ s'" "length m = length p" "k caps (rev m @ c # rb) s' = Some x" by blast
    then show ?thesis using Cons by (intro exI[of _ "c # m"] exI[of _ s']) simp
  qed
qed

lemma consumes_liti: "consumes (\<lambda>m. length m = length p) (liti p)"
proof (rule consumesI)
  fix k caps rb s x
  assume "liti p k caps rb s = Some x"
  from liti_Some[OF this] obtain m s' where
    "s = m @ s'" "(\<lambda>m. length m = length p) m" "k caps (rev m @ rb) s' = Some x" by (elim exE conjE)
  then show "\<exists>caps' m s'. s = m @ s' \<and> (\<lambda>m. length m = length p) m \<and> k caps' (rev m @ rb) s' = Some x"
    by (intro exI[of _ caps] exI[of _ m] exI[of _ s']) simp
qed

lemma cls_Some:
  "cls P k caps rb s = Some x \<Longrightarrow> \<exists>c s'. s = c # s' \<and> P c \<and> k caps (c # rb) s' = Some x"
  by (cases s) (auto split: if_splits)

lemma consumes_cls: "consumes (\<lambda>m. \<exists>c. m = [c] \<and> P c) (cls P)"
proof (rule consumesI)
  fix k caps rb s x
  assume "cls P k caps rb s = Some x"
  from cls_Some[OF this] obtain c s' where "s = c # s'" "P c" "k caps (c # rb) s' = Some x"
    by blast
  then show "\<exists>caps' m s'. s = m @ s' \<and> (\<exists>c. m = [c] \<and> P c) \<and> k caps' (rev m @ rb) s' = Some x"
    by (intro exI[of _ caps] exI[of _ "[c]"] exI[of _ s']) simp
qed

lemma star_Some:
  "star P k caps rb s = Some x \<Longrightarrow>
   \<exists>m s'. s = m @ s' \<and> list_all P m \<and> k caps (rev m @ rb) s' = Some x"
proof (induction s arbitrary: rb)
  case Nil
  then show ?case by simp
next
  case (Cons c cs)
  show ?case
  proof (cases "P c \<and> star P k caps (c # rb) cs = Some x")
    case True
    from Cons.IH[of "c # rb"] True obtain m s' where
      "cs = m @ s'" "list_all P m" "k caps (rev m @ c # rb) s' = Some x" by blast
    with True show ?thesis by (intro exI[of _ "c # m"] exI[of _ s']) simp
  next
    case False
    with Cons.prems have "k caps rb (c # cs) = Some x"
      by (auto split: if_splits option.splits)
    then show ?thesis by (intro exI[of _ "[]"] exI[of _ "c # cs"]) simp
  qed
qed

lemma consumes_star: "consumes (list_all P) (star P)"
proof (rule consumesI)
  fix k caps rb s x
  assume "star P k caps rb s = Some x"
  from star_Some[OF this] obtain m s' where
    "s = m @ s'" "(list_all P) m" "k caps (rev m @ rb) s' = Some x" by (elim exE conjE)
  then show "\<exists>caps' m s'. s = m @ s' \<and> (list_all P) m \<and> k caps' (rev m @ rb) s' = Some x"
    by (intro exI[of _ caps] exI[of _ m] exI[of _ s']) simp
qed

lemma lazy_Some:
  "lazy P k caps rb s = Some x \<Longrightarrow>
   \<exists>m s'. s = m @ s' \<and> list_all P m \<and> k caps (rev m @ rb) s' = Some x"
proof (induction s arbitrary: rb)
  case Nil
  then show ?case by simp
next
  case (Cons c cs)
  show ?case
  proof (cases "k caps rb (c # cs)")
    case (Some y)
    with Cons.prems have "k caps rb (c # cs) = Some x" by simp
    then show ?thesis by (intro exI[of _ "[]"] exI[of _ "c # cs"]) simp
  next
    case None
    with Cons.prems have pc: "P c" and "lazy P k caps (c # rb) cs = Some x"
      by (auto split: if_splits)
    from Cons.IH[OF this(2)] obtain m s' where
      "cs = m @ s'" "list_all P m" "k caps (rev m @ c # rb) s' = Some x" by blast
    with pc show ?thesis by (intro exI[of _ "c # m"] exI[of _ s']) simp
  qed
qed

lemma consumes_lazy: "consumes (list_all P) (lazy P)"
proof (rule consumesI)
  fix k caps rb s x
  assume "lazy P k caps rb s = Some x"
  from lazy_Some[OF this] obtain m s' where
    "s = m @ s'" "(list_all P) m" "k caps (rev m @ rb) s' = Some x" by (elim exE conjE)
  then show "\<exists>caps' m s'. s = m @ s' \<and> (list_all P) m \<and> k caps' (rev m @ rb) s' = Some x"
    by (intro exI[of _ caps] exI[of _ m] exI[of _ s']) simp
qed

lemma upto_Some:
  "upto n P k caps rb s = Some x \<Longrightarrow>
   \<exists>m s'. s = m @ s' \<and> list_all P m \<and> k caps (rev m @ rb) s' = Some x"
proof (induction n P k caps rb s rule: upto.induct)
  case (1 P k caps rb s)
  then show ?case by (intro exI[of _ "[]"] exI[of _ s]) simp
next
  case (2 n P k caps rb)
  then show ?case by simp
next
  case (3 n P k caps rb c cs)
  show ?case
  proof (cases "P c \<and> upto n P k caps (c # rb) cs = Some x")
    case True
    with "3.IH" obtain m s' where
      "cs = m @ s'" "list_all P m" "k caps (rev m @ c # rb) s' = Some x" by blast
    with True show ?thesis by (intro exI[of _ "c # m"] exI[of _ s']) simp
  next
    case False
    with "3.prems" have "k caps rb (c # cs) = Some x"
      by (auto split: if_splits option.splits)
    then show ?thesis by (intro exI[of _ "[]"] exI[of _ "c # cs"]) simp
  qed
qed

lemma consumes_upto: "consumes (list_all P) (upto n P)"
proof (rule consumesI)
  fix k caps rb s x
  assume "upto n P k caps rb s = Some x"
  from upto_Some[OF this] obtain m s' where
    "s = m @ s'" "(list_all P) m" "k caps (rev m @ rb) s' = Some x" by (elim exE conjE)
  then show "\<exists>caps' m s'. s = m @ s' \<and> (list_all P) m \<and> k caps' (rev m @ rb) s' = Some x"
    by (intro exI[of _ caps] exI[of _ m] exI[of _ s']) simp
qed

lemma consumes_comp:
  assumes "consumes M1 r1" and "consumes M2 r2"
  shows "consumes (\<lambda>m. \<exists>m1 m2. m = m1 @ m2 \<and> M1 m1 \<and> M2 m2) (r1 \<circ> r2)"
proof (rule consumesI)
  fix k caps rb s x
  assume "(r1 \<circ> r2) k caps rb s = Some x"
  then have "r1 (r2 k) caps rb s = Some x" by simp
  from consumesD[OF assms(1) this] obtain caps1 m1 s1 where
    1: "s = m1 @ s1" "M1 m1" "r2 k caps1 (rev m1 @ rb) s1 = Some x" by blast
  from consumesD[OF assms(2) 1(3)] obtain caps2 m2 s2 where
    2: "s1 = m2 @ s2" "M2 m2" "k caps2 (rev m2 @ rev m1 @ rb) s2 = Some x" by blast
  show "\<exists>caps' m s'. s = m @ s' \<and> (\<exists>m1 m2. m = m1 @ m2 \<and> M1 m1 \<and> M2 m2)
          \<and> k caps' (rev m @ rb) s' = Some x"
    using 1 2 by (intro exI[of _ caps2] exI[of _ "m1 @ m2"] exI[of _ s2]) auto
qed

lemma consumes_plus: "consumes (\<lambda>m. m \<noteq> [] \<and> list_all P m) (plus P)"
proof -
  have "plus P = cls P \<circ> star P" by (rule ext) (simp add: plus_def)
  moreover have "consumes (\<lambda>m. \<exists>m1 m2. m = m1 @ m2 \<and> (\<exists>c. m1 = [c] \<and> P c) \<and> list_all P m2)
                   (cls P \<circ> star P)"
    by (rule consumes_comp[OF consumes_cls consumes_star])
  ultimately have "consumes (\<lambda>m. \<exists>m1 m2. m = m1 @ m2 \<and> (\<exists>c. m1 = [c] \<and> P c) \<and> list_all P m2)
                   (plus P)" by simp
  then show ?thesis by (rule consumes_weaken) auto
qed

lemma consumes_alt:
  assumes "consumes M1 r1" and "consumes M2 r2"
  shows "consumes (\<lambda>m. M1 m \<or> M2 m) (alt r1 r2)"
proof (rule consumesI)
  fix k caps rb s x
  assume "alt r1 r2 k caps rb s = Some x"
  then consider "r1 k caps rb s = Some x" | "r2 k caps rb s = Some x"
    by (auto simp: alt_def split: option.splits)
  then show "\<exists>caps' m s'. s = m @ s' \<and> (M1 m \<or> M2 m) \<and> k caps' (rev m @ rb) s' = Some x"
  proof cases
    case 1
    from consumesD[OF assms(1) this] show ?thesis by metis
  next
    case 2
    from consumesD[OF assms(2) this] show ?thesis by metis
  qed
qed

lemma consumes_alts:
  assumes "\<And>r. r \<in> set rs \<Longrightarrow> consumes M r"
  shows "consumes M (alts rs)"
  using assms
proof (induction rs)
  case Nil
  show ?case by (rule consumesI) simp
next
  case (Cons r rs)
  have r: "consumes M r" and rs: "consumes M (alts rs)" using Cons by auto
  show ?case
  proof (rule consumesI)
    fix k caps rb s x
    assume "alts (r # rs) k caps rb s = Some x"
    then consider "r k caps rb s = Some x" | "alts rs k caps rb s = Some x"
      by (auto split: option.splits)
    then show "\<exists>caps' m s'. s = m @ s' \<and> M m \<and> k caps' (rev m @ rb) s' = Some x"
    proof cases
      case 1
      from consumesD[OF r this] show ?thesis by metis
    next
      case 2
      from consumesD[OF rs this] show ?thesis by metis
    qed
  qed
qed

lemma consumes_opt:
  assumes "consumes M r"
  shows "consumes (\<lambda>m. M m \<or> m = []) (opt r)"
proof (rule consumesI)
  fix k caps rb s x
  assume "opt r k caps rb s = Some x"
  then consider "r k caps rb s = Some x" | "k caps rb s = Some x"
    by (auto simp: opt_def split: option.splits)
  then show "\<exists>caps' m s'. s = m @ s' \<and> (M m \<or> m = []) \<and> k caps' (rev m @ rb) s' = Some x"
  proof cases
    case 1
    from consumesD[OF assms this] show ?thesis by metis
  next
    case 2
    then show ?thesis by (intro exI[of _ caps] exI[of _ "[]"] exI[of _ s]) simp
  qed
qed

lemma consumes_cap:
  assumes "consumes M r"
  shows "consumes M (cap r)"
proof (rule consumesI)
  fix k caps rb s x
  assume "cap r k caps rb s = Some x"
  then have "r (\<lambda>caps' rb' s'. k (caps' @ [take (length s - length s') s]) rb' s') caps rb s = Some x"
    by (simp add: cap_def)
  from consumesD[OF assms this] show
    "\<exists>caps' m s'. s = m @ s' \<and> M m \<and> k caps' (rev m @ rb) s' = Some x" by metis
qed

lemma consumes_zero:
  "consumes (\<lambda>m. m = []) bol" "consumes (\<lambda>m. m = []) eol"
  "consumes (\<lambda>m. m = []) bolM" "consumes (\<lambda>m. m = []) eolM"
  "consumes (\<lambda>m. m = []) wordb"
  "consumes (\<lambda>m. m = []) (ahead r)" "consumes (\<lambda>m. m = []) (nahead r)"
  "consumes (\<lambda>m. m = []) (behind p)" "consumes (\<lambda>m. m = []) (nbehind p)"
proof -
  have z: "\<And>r. (\<And>k caps rb s x. r k caps rb s = Some x \<Longrightarrow> k caps rb s = Some x)
             \<Longrightarrow> consumes (\<lambda>m. m = []) r"
  proof (rule consumesI)
    fix r :: rx and k caps rb s x
    assume "\<And>k caps rb s x. r k caps rb s = Some x \<Longrightarrow> k caps rb s = Some x"
      and "r k caps rb s = Some x"
    then have "k caps rb s = Some x" by blast
    then show "\<exists>caps' m s'. s = m @ s' \<and> m = [] \<and> k caps' (rev m @ rb) s' = Some x"
      by (intro exI[of _ caps] exI[of _ "[]"] exI[of _ s]) simp
  qed
  show "consumes (\<lambda>m. m = []) bol" by (rule z) (simp add: bol_def split: if_splits)
  show "consumes (\<lambda>m. m = []) eol" by (rule z) (simp add: eol_def split: if_splits)
  show "consumes (\<lambda>m. m = []) bolM" by (rule z) (simp add: bolM_def split: if_splits)
  show "consumes (\<lambda>m. m = []) eolM" by (rule z) (simp add: eolM_def split: if_splits)
  show "consumes (\<lambda>m. m = []) wordb" by (rule z) (simp add: wordb_def split: if_splits)
  show "consumes (\<lambda>m. m = []) (ahead r)" by (rule z) (simp add: ahead_def split: if_splits)
  show "consumes (\<lambda>m. m = []) (nahead r)" by (rule z) (simp add: nahead_def split: if_splits)
  show "consumes (\<lambda>m. m = []) (behind p)" by (rule z) (simp add: behind_def split: if_splits)
  show "consumes (\<lambda>m. m = []) (nbehind p)" by (rule z) (simp add: nbehind_def split: if_splits)
qed

lemma consumes_backref: "consumes (\<lambda>m. True) (backref i)"
proof (rule consumesI)
  fix k caps rb s x
  assume "backref i k caps rb s = Some x"
  then have "lit (caps ! i) k caps rb s = Some x" by (auto simp: backref_def split: if_splits)
  from lit_Some[OF this] show "\<exists>caps' m s'. s = m @ s' \<and> True \<and> k caps' (rev m @ rb) s' = Some x"
    by blast
qed

lemma consumes_words: "consumes (\<lambda>m. True) (words ws)"
  unfolding words_def
  by (rule consumes_alts) (auto intro: consumes_weaken[OF consumes_lit])

lemma consumes_wordsi: "consumes (\<lambda>m. True) (wordsi ws)"
  unfolding wordsi_def
  by (rule consumes_alts) (auto intro: consumes_weaken[OF consumes_liti])

lemma matchAt_consumes:
  assumes "consumes M r" and "matchAt r rb s = Some (caps, rest)"
  obtains m where "s = m @ rest" and "M m"
proof -
  from assms(2) have "r accept [] rb s = Some (caps, rest)" by (simp add: matchAt_def)
  from consumesD[OF assms(1) this] obtain caps' m s' where
    "s = m @ s'" "M m" "accept caps' (rev m @ rb) s' = Some (caps, rest)" by blast
  then show ?thesis using that by (simp add: accept_def)
qed

section \<open>The pieces of a scan\<close>

fun pieceText :: "piece \<Rightarrow> jsstring" where
  "pieceText (Gap g) = g"
| "pieceText (Match m caps) = m"

lemma matchAt_take:
  assumes "consumes M r" and "matchAt r rb s = Some (caps, rest)"
  shows "take (length s - length rest) s @ rest = s" and "M (take (length s - length rest) s)"
proof -
  from matchAt_consumes[OF assms] obtain m where m: "s = m @ rest" "M m" .
  then have "take (length s - length rest) s = m" by simp
  with m show "take (length s - length rest) s @ rest = s"
    and "M (take (length s - length rest) s)" by simp_all
qed

lemma scan_concat:
  assumes r: "consumes M r"
  shows "concat (map pieceText (scan r rb gap s)) = gap @ s"
  using r
proof (induction r rb gap s rule: scan.induct)
  case (1 r rb gap s)
  note r = "1.prems"
  show ?case
  proof (cases "matchAt r rb s")
    case None
    show ?thesis
    proof (cases s)
      case Nil
      with None show ?thesis by (subst scan.simps) simp
    next
      case (Cons c cs)
      with None "1.IH"(1)[OF None Cons r] show ?thesis by (subst scan.simps) simp
    qed
  next
    case (Some a)
    obtain caps rest where a: "a = (caps, rest)" by (cases a)
    show ?thesis
    proof (cases "length rest < length s")
      case True
      have ih: "concat (map pieceText (scan r (rev (take (length s - length rest) s) @ rb) [] rest)) = rest"
        using "1.IH"(2)[OF Some a[symmetric] True r] by simp
      have "take (length s - length rest) s @ rest = s"
        using matchAt_take(1)[OF r] Some a by simp
      with Some a True ih show ?thesis by (subst scan.simps) simp
    next
      case False
      show ?thesis
      proof (cases s)
        case Nil
        with Some a False show ?thesis by (subst scan.simps) simp
      next
        case (Cons c cs)
        with Some a False "1.IH"(3)[OF Some a[symmetric] False Cons r] show ?thesis
          by (subst scan.simps) simp
      qed
    qed
  qed
qed

lemma scan_Match:
  assumes r: "consumes M r"
  shows "Match m caps \<in> set (scan r rb gap s) \<Longrightarrow> M m"
  using r
proof (induction r rb gap s rule: scan.induct)
  case (1 r rb gap s)
  note r = "1.prems"(2)
  note mem = "1.prems"(1)
  show ?case
  proof (cases "matchAt r rb s")
    case None
    show ?thesis
    proof (cases s)
      case Nil
      with None mem show ?thesis by (subst (asm) scan.simps) simp
    next
      case (Cons c cs)
      with None mem have "Match m caps \<in> set (scan r (c # rb) (gap @ [c]) cs)"
        by (subst (asm) scan.simps) simp
      then show ?thesis by (rule "1.IH"(1)[OF None Cons _ r])
    qed
  next
    case (Some a)
    obtain caps' rest where a: "a = (caps', rest)" by (cases a)
    have tk: "take (length s - length rest) s @ rest = s" "M (take (length s - length rest) s)"
      using matchAt_take[OF r] Some a by simp_all
    show ?thesis
    proof (cases "length rest < length s")
      case True
      with Some a mem have
        "Match m caps = Match (take (length s - length rest) s) caps' \<or>
         Match m caps \<in> set (scan r (rev (take (length s - length rest) s) @ rb) [] rest)"
        by (subst (asm) scan.simps) simp
      then show ?thesis
      proof
        assume "Match m caps = Match (take (length s - length rest) s) caps'"
        with tk(2) show ?thesis by simp
      next
        assume "Match m caps \<in> set (scan r (rev (take (length s - length rest) s) @ rb) [] rest)"
        then show ?thesis by (rule "1.IH"(2)[OF Some a[symmetric] True _ r])
      qed
    next
      case False
      with tk have emp: "M []"
        by (metis append_eq_conv_conj diff_is_0_eq not_less take_eq_Nil)
      show ?thesis
      proof (cases s)
        case Nil
        with Some a False mem emp show ?thesis by (subst (asm) scan.simps) auto
      next
        case (Cons c cs)
        with Some a False mem have
          "Match m caps = Match [] caps' \<or> Match m caps \<in> set (scan r (c # rb) [c] cs)"
          by (subst (asm) scan.simps) simp
        then show ?thesis
        proof
          assume "Match m caps = Match [] caps'"
          with emp show ?thesis by simp
        next
          assume "Match m caps \<in> set (scan r (c # rb) [c] cs)"
          then show ?thesis by (rule "1.IH"(3)[OF Some a[symmetric] False Cons _ r])
        qed
      qed
    qed
  qed
qed

lemma scan_no_match:
  assumes r: "consumes (\<lambda>m. c \<in> set m) r"
  shows "c \<notin> set s \<Longrightarrow> scan r rb gap s = [Gap (gap @ s)]"
proof (induction s arbitrary: rb gap)
  case Nil
  have "matchAt r rb [] = None"
  proof (cases "matchAt r rb []")
    case (Some a)
    obtain caps rest where "a = (caps, rest)" by (cases a)
    with Some matchAt_consumes[OF r, of rb "[]" caps rest] show ?thesis by auto
  qed simp
  then show ?case by (subst scan.simps) simp
next
  case (Cons d ds)
  have "matchAt r rb (d # ds) = None"
  proof (cases "matchAt r rb (d # ds)")
    case (Some a)
    obtain caps rest where "a = (caps, rest)" by (cases a)
    with Some matchAt_consumes[OF r, of rb "d # ds" caps rest] obtain m where
      "d # ds = m @ rest" "c \<in> set m" by auto
    then have "c \<in> set (d # ds)" by (metis Un_iff set_append)
    with Cons.prems show ?thesis by simp
  qed simp
  moreover have "scan r (d # rb) (gap @ [d]) ds = [Gap ((gap @ [d]) @ ds)]"
    using Cons.prems by (intro Cons.IH) simp
  ultimately show ?case by (subst scan.simps) simp
qed

lemma replaceAll_no_match:
  assumes "consumes (\<lambda>m. c \<in> set m) r" and "c \<notin> set s"
  shows "replaceAll r f s = s"
  using scan_no_match[OF assms, of "[]" "[]"] by (simp add: replaceAll_def)

section \<open>What the expressions of the pipeline consume\<close>

lemmas consumes_intros =
  consumes_comp consumes_cap consumes_alt consumes_opt consumes_lit consumes_liti consumes_cls
  consumes_star consumes_lazy consumes_upto consumes_plus consumes_zero consumes_backref
  consumes_words consumes_wordsi

lemma consumes_rxInlineParen: "consumes (\<lambda>m. BSL \<in> set m) rxInlineParen"
  unfolding rxInlineParen_def
  by (rule consumes_weaken, (rule consumes_intros)+) auto

lemma consumes_rxDisplayBracket: "consumes (\<lambda>m. BSL \<in> set m) rxDisplayBracket"
  unfolding rxDisplayBracket_def
  by (rule consumes_weaken, (rule consumes_intros)+) auto

lemma consumes_rxBracketLines: "consumes (\<lambda>m. 91 \<in> set m) rxBracketLines"
  unfolding rxBracketLines_def
  by (rule consumes_weaken, (rule consumes_intros)+) (auto simp: js_def)

lemma consumes_rxEnv: "consumes (\<lambda>m. BSL \<in> set m) rxEnv"
  unfolding rxEnv_def
  by (rule consumes_weaken, (rule consumes_intros)+) auto

lemma isBlank_isWS: "isBlank c \<Longrightarrow> isWS c"
  by (auto simp: isBlank_def isWS_def)

lemma isWS_NL: "isWS NL"
  by (simp add: isWS_def)

lemma consumes_rxBlankBefore: "consumes (\<lambda>m. m \<noteq> [] \<and> list_all isWS m) rxBlankBefore"
  unfolding rxBlankBefore_def
  by (rule consumes_weaken, (rule consumes_intros)+)
     (auto simp: list_all_iff isWS_NL isBlank_isWS)

lemma consumes_rxBlankAfter: "consumes (\<lambda>m. m \<noteq> [] \<and> list_all isWS m) rxBlankAfter"
  unfolding rxBlankAfter_def
  by (rule consumes_weaken, (rule consumes_intros)+)
     (auto simp: list_all_iff isWS_NL isBlank_isWS)

lemma notWS_url_literals:
  "list_all (\<lambda>c. \<not> isWS c) (js ''http'')" "list_all (\<lambda>c. \<not> isWS c) (js ''s'')"
  "list_all (\<lambda>c. \<not> isWS c) (js ''://'')"
  by (simp_all add: js_def isWS_def)

lemma consumes_urlRegex: "consumes (\<lambda>m. m \<noteq> [] \<and> list_all (\<lambda>c. \<not> isWS c) m) urlRegex"
  unfolding urlRegex_def
  by (rule consumes_weaken, (rule consumes_intros)+)
     (use notWS_url_literals in \<open>auto simp: list_all_iff\<close>)

lemma consumes_codeFenceRegex: "consumes (\<lambda>m. True) codeFenceRegex"
  unfolding codeFenceRegex_def
  by (rule consumes_weaken, (rule consumes_intros)+) auto

section \<open>Unterminated display delimiters\<close>

text \<open>Two adjacent dollar signs somewhere in a text; no position of a text on a line that
  holds only \<open>$$\<close>.\<close>

fun hasDollarPair :: "jsstring \<Rightarrow> bool" where
  "hasDollarPair (a # b # cs) = ((a = DOLLAR \<and> b = DOLLAR) \<or> hasDollarPair (b # cs))"
| "hasDollarPair cs = False"












section \<open>Stages that leave a text unchanged\<close>

lemma searchFrom_needs:
  assumes r: "consumes (\<lambda>m. c \<in> set m) r"
  shows "c \<notin> set s \<Longrightarrow> \<not> searchFrom r rb s"
proof (induction s arbitrary: rb)
  case Nil
  have "matchAt r rb [] = None"
  proof (cases "matchAt r rb []")
    case (Some a)
    obtain caps rest where "a = (caps, rest)" by (cases a)
    with Some matchAt_consumes[OF r, of rb "[]" caps rest] show ?thesis by auto
  qed simp
  then show ?case by simp
next
  case (Cons d ds)
  have "matchAt r rb (d # ds) = None"
  proof (cases "matchAt r rb (d # ds)")
    case (Some a)
    obtain caps rest where "a = (caps, rest)" by (cases a)
    with Some matchAt_consumes[OF r, of rb "d # ds" caps rest] obtain m where
      "d # ds = m @ rest" "c \<in> set m" by auto
    then have "c \<in> set (d # ds)" by (metis Un_iff set_append)
    with Cons.prems show ?thesis by simp
  qed simp
  moreover have "\<not> searchFrom r (d # rb) ds" using Cons.prems by (intro Cons.IH) simp
  ultimately show ?case by simp
qed

lemma test_needs:
  assumes "consumes (\<lambda>m. c \<in> set m) r" and "c \<notin> set s"
  shows "\<not> test r s"
  using searchFrom_needs[OF assms] by (simp add: test_def)

lemma set_trim: "set (trim s) \<subseteq> set s"
proof -
  have "set (rev (dropWhile isWS (rev (dropWhile isWS s)))) \<subseteq> set (dropWhile isWS s)"
    using set_dropWhileD[of _ isWS "rev (dropWhile isWS s)"] by auto
  moreover have "set (dropWhile isWS s) \<subseteq> set s"
    using set_dropWhileD[of _ isWS s] by auto
  ultimately show ?thesis by (simp add: trim_def trimEnd_def trimStart_def)
qed

lemma set_slice: "set (slice t a b) \<subseteq> set t"
  unfolding slice_def by (meson set_drop_subset set_take_subset subset_trans)

text \<open>A text without a dollar sign is one chunk, outside.\<close>

lemma consumes_rxDelimLine: "consumes (\<lambda>m. DOLLAR \<in> set m) rxDelimLine"
  unfolding rxDelimLine_def
  by (rule consumes_weaken, (rule consumes_intros)+) (auto simp: js_def)

lemma isDelimLineAt_dollar: "isDelimLineAt t i \<Longrightarrow> DOLLAR \<in> set t"
proof (rule ccontr)
  assume d: "isDelimLineAt t i" and n: "DOLLAR \<notin> set t"
  let ?b = "lineBoundsAt t i"
  from n set_slice[of t "ls ?b" "le ?b"] have "DOLLAR \<notin> set (slice t (ls ?b) (le ?b))" by blast
  from test_needs[OF consumes_rxDelimLine this] d show False
    by (simp add: isDelimLineAt_def Let_def)
qed

lemma segLoop_no_dollar:
  assumes n: "DOLLAR \<notin> set t"
  shows "segLoop t i 0 False = (if t = [] then [] else [\<lparr>inside = False, chunk = t\<rparr>])"
proof (induction "length t - i" arbitrary: i)
  case 0
  then have "\<not> i < length t" by simp
  then show ?case by (subst segLoop.simps) simp
next
  case (Suc n)
  then have lt: "i < length t" by simp
  have ndl: "\<not> isDelimLineAt t i" using isDelimLineAt_dollar n by blast
  have "t ! i \<noteq> DOLLAR" using n lt by (metis nth_mem)
  then have nd: "charAt t i \<noteq> Some DOLLAR" using lt by (simp add: charAt_def)
  have "segLoop t i 0 False = segLoop t (i + 1) 0 False"
    using lt ndl nd by (subst segLoop.simps) simp
  moreover have "n = length t - (i + 1)" using Suc by simp
  ultimately show ?case using Suc.hyps(1) by simp
qed

lemma segmentByDisplayMath_no_dollar:
  "DOLLAR \<notin> set t \<Longrightarrow>
   segmentByDisplayMath t = (if t = [] then [] else [\<lparr>inside = False, chunk = t\<rparr>])"
  by (simp add: segmentByDisplayMath_def segLoop_no_dollar)

lemma applyOutsideDisplay_id:
  assumes "\<And>seg. f seg = seg"
  shows "applyOutsideDisplay t f = t"
proof -
  have "f = (\<lambda>seg. seg)" using assms by (rule ext)
  then show ?thesis by (simp add: applyOutsideDisplay_ident)
qed

lemma convertInlineDelims_off:
  "\<not> plainParensAsDelimiters opts \<Longrightarrow> \<not> plainBracketsAsDelimiters opts \<Longrightarrow>
   convertInlineDelims seg opts = seg"
  by (simp add: convertInlineDelims_def)

text \<open>The stages of \<open>processMath\<close> after the delimiter normaliser and the environment
  wrapper.\<close>

definition inlineStages :: "jsstring \<Rightarrow> ConvertOptions \<Rightarrow> jsstring" where
  "inlineStages text opts =
     (let text6 = applyOutsideDisplay text (\<lambda>seg. convertInlineDelims seg opts);
          text7 = (if convertBareInlineLatex opts
                   then applyOutsideDisplay text6 (\<lambda>seg. wrapInlineBareLatex seg) else text6)
      in text7)"

lemma processMath_plain:
  assumes "BSL \<notin> set text" and "91 \<notin> set text"
  shows "processMath text opts =
           inlineStages (if wrapBareMathSingleLines opts then wrapBareMathLinesOutside text
                         else text) opts"
proof -
  have 1: "replaceAll rxInlineParen f text = text" for f
    using consumes_rxInlineParen assms(1) by (rule replaceAll_no_match)
  have 2: "replaceAll rxDisplayBracket f text = text" for f
    using consumes_rxDisplayBracket assms(1) by (rule replaceAll_no_match)
  have 3: "replaceAll rxBracketLines f text = text" for f
    using consumes_rxBracketLines assms(2) by (rule replaceAll_no_match)
  have 4: "replaceAll rxEnv f text = text" for f
    using consumes_rxEnv assms(1) by (rule replaceAll_no_match)
  show ?thesis
    unfolding processMath_def inlineStages_def Let_def 1 2 3 4 by simp
qed

lemma inlineStages_off:
  assumes "\<not> plainParensAsDelimiters opts" "\<not> plainBracketsAsDelimiters opts"
    "\<not> convertBareInlineLatex opts"
  shows "inlineStages text opts = text"
proof -
  have "applyOutsideDisplay text (\<lambda>seg. convertInlineDelims seg opts) = text"
    by (rule applyOutsideDisplay_id) (simp add: convertInlineDelims_off assms)
  with assms(3) show ?thesis by (simp add: inlineStages_def)
qed

section \<open>The stages of the pipeline\<close>

text \<open>The delimiter normaliser and the environment wrapper: the first four steps of
  \<open>processMath\<close>.\<close>

definition normalise :: "jsstring \<Rightarrow> ConvertOptions \<Rightarrow> jsstring" where
  "normalise text opts =
     (let text1 = replaceAll rxInlineParen
                    (\<lambda>m caps. js ''$'' @ trim (caps ! 0) @ js ''$'') text;
          text2 = replaceAll rxDisplayBracket
                    (\<lambda>m caps. NL # js ''$$'' @ NL # trim (caps ! 0) @ NL # js ''$$'' @ [NL]) text1;
          text3 = replaceAll rxBracketLines
                    (\<lambda>m caps. caps ! 0 @ js ''$$'' @ NL # trim (caps ! 1) @ NL # js ''$$'') text2;
          text4 = (if wrapMatrixEnvsInDisplayMath opts
                   then replaceAll rxEnv
                          (\<lambda>m caps. caps ! 0 @ js ''$$'' @ NL # caps ! 1 @ BSL # js ''begin{''
                              @ caps ! 2 @ js ''}'' @ caps ! 3 @ BSL # js ''end{'' @ caps ! 2
                              @ js ''}'' @ NL # js ''$$'') text3
                   else text3)
      in text4)"

lemma processMath_stages:
  "processMath text opts =
     inlineStages (if wrapBareMathSingleLines opts
                   then wrapBareMathLinesOutside (normalise text opts)
                   else normalise text opts) opts"
  by (simp add: processMath_def normalise_def inlineStages_def Let_def)

text \<open>The early return of \<open>convertKatexToMathJax\<close>.\<close>

definition isLinkBlob :: "jsstring \<Rightarrow> bool" where
  "isLinkBlob input \<longleftrightarrow>
     test rxRawUrl (trim input) \<or> test rxMarkdownLink (trim input) \<or> test rxCombined (trim input)"

lemma convert_blob: "isLinkBlob input \<Longrightarrow> convertKatexToMathJax input opts = input"
  by (simp add: convertKatexToMathJax_def isLinkBlob_def Let_def)

lemma consumes_http:
  "consumes (\<lambda>m. 104 \<in> set m) urlRegex" "consumes (\<lambda>m. 104 \<in> set m) rxRawUrl"
  "consumes (\<lambda>m. 104 \<in> set m) rxCombined"
  "consumes (\<lambda>m. 58 \<in> set m) urlRegex" "consumes (\<lambda>m. 58 \<in> set m) rxRawUrl"
  "consumes (\<lambda>m. 58 \<in> set m) rxCombined"
  unfolding urlRegex_def rxRawUrl_def rxCombined_def
  by ((rule consumes_weaken, (rule consumes_intros)+, auto simp: js_def)[1])+

lemma consumes_rxMarkdownLink: "consumes (\<lambda>m. 91 \<in> set m) rxMarkdownLink"
  unfolding rxMarkdownLink_def
  by (rule consumes_weaken, (rule consumes_intros)+) (auto simp: js_def)

lemma consumes_fence: "consumes (\<lambda>m. 96 \<in> set m) codeFenceRegex"
  unfolding codeFenceRegex_def
  by (rule consumes_weaken, (rule consumes_intros)+) (auto simp: js_def)

lemma not_blob:
  assumes "58 \<notin> set input \<or> 104 \<notin> set input" and "91 \<notin> set input"
  shows "\<not> isLinkBlob input"
proof -
  from assms set_trim[of input] have
    t: "58 \<notin> set (trim input) \<or> 104 \<notin> set (trim input)" "91 \<notin> set (trim input)" by auto
  have "\<not> test rxRawUrl (trim input)" using t(1) consumes_http test_needs by blast
  moreover have "\<not> test rxCombined (trim input)" using t(1) consumes_http test_needs by blast
  moreover have "\<not> test rxMarkdownLink (trim input)"
    using t(2) consumes_rxMarkdownLink test_needs by blast
  ultimately show ?thesis by (simp add: isLinkBlob_def)
qed

lemma processOutsideCode_no_url:
  assumes "58 \<notin> set text \<or> 104 \<notin> set text" and "text \<noteq> []"
  shows "processOutsideCode text opts = processMath text opts"
proof -
  have "scan urlRegex [] [] text = [Gap ([] @ text)]"
    using assms(1) consumes_http scan_no_match by blast
  with assms(2) show ?thesis by (simp add: processOutsideCode_def)
qed

lemma convert_no_fence:
  assumes "\<not> isLinkBlob input" and "96 \<notin> set input" and "input \<noteq> []"
  shows "convertKatexToMathJax input opts
           = trimEmptyLinesAroundBlockMath (processOutsideCode input opts)"
proof -
  have "scan codeFenceRegex [] [] input = [Gap ([] @ input)]"
    using consumes_fence assms(2) by (rule scan_no_match)
  with assms(1,3) show ?thesis
    by (simp add: convertKatexToMathJax_def isLinkBlob_def Let_def)
qed

lemma convert_prose:
  assumes "58 \<notin> set input \<or> 104 \<notin> set input" and "91 \<notin> set input"
    and "96 \<notin> set input" and "input \<noteq> []"
  shows "convertKatexToMathJax input opts = trimEmptyLinesAroundBlockMath (processMath input opts)"
  using convert_no_fence[OF not_blob[OF assms(1,2)] assms(3,4)]
    processOutsideCode_no_url[OF assms(1,4)] by simp

section \<open>The code at concrete inputs\<close>

lemmas ev_pm = normalise_def rxInlineParen_def rxDisplayBracket_def rxBracketLines_def rxEnv_def
lemmas ev_trim = trimEmptyLinesAroundBlockMath_def rxBlankBefore_def rxBlankAfter_def

lemma default_flags:
  "wrapMatrixEnvsInDisplayMath DEFAULT_SETTINGS" "\<not> plainParensAsDelimiters DEFAULT_SETTINGS"
  "\<not> plainBracketsAsDelimiters DEFAULT_SETTINGS" "\<not> convertBareInlineLatex DEFAULT_SETTINGS"
  "\<not> wrapBareMathSingleLines DEFAULT_SETTINGS"
  by (simp_all add: DEFAULT_SETTINGS_def)

definition envInDisplay :: jsstring where
  "envInDisplay = js ''$$'' @ NL # BSL # js ''begin{bmatrix}a'' @ BSL # js ''end{bmatrix}''
     @ NL # js ''$$''"

definition envInDisplayOut :: jsstring where
  "envInDisplayOut = js ''$$'' @ NL # js ''$$'' @ NL # BSL # js ''begin{bmatrix}a'' @ BSL
     # js ''end{bmatrix}'' @ NL # js ''$$'' @ NL # js ''$$''"

lemma c5_norm: "normalise envInDisplay DEFAULT_SETTINGS = envInDisplayOut"
  by (simp add: envInDisplay_def envInDisplayOut_def DEFAULT_SETTINGS_def ev ev_pm)

lemma c5_trim: "trimEmptyLinesAroundBlockMath envInDisplayOut = envInDisplayOut"
  by (simp add: envInDisplayOut_def ev ev_trim)

lemma c5_chars: "58 \<notin> set envInDisplay" "91 \<notin> set envInDisplay" "96 \<notin> set envInDisplay"
  "envInDisplay \<noteq> []"
  by (simp_all add: envInDisplay_def js_def)

text \<open>
  Claim C5 says that an environment that is already inside display math is left unchanged.
  The code wraps it again: with the default options (\<open>wrapMatrixEnvsInDisplayMath\<close> set)
  an environment on its own line between two \<open>$$\<close> lines gets a second pair of \<open>$$\<close>
  lines.
\<close>

theorem env_inside_display_wrapped_again:
  "convertKatexToMathJax envInDisplay DEFAULT_SETTINGS = envInDisplayOut"
proof -
  have "processMath envInDisplay DEFAULT_SETTINGS = envInDisplayOut"
    by (simp add: processMath_stages c5_norm inlineStages_off default_flags)
  then show ?thesis using c5_chars c5_trim by (simp add: convert_prose)
qed


definition fencedBlock :: jsstring where
  "fencedBlock = js ''```'' @ NL # js ''a'' @ NL # NL # js ''$$'' @ NL # js ''b'' @ NL # js ''```''"

definition fencedBlockOut :: jsstring where
  "fencedBlockOut = js ''```'' @ NL # js ''a'' @ NL # js ''$$'' @ NL # js ''b'' @ NL # js ''```''"

lemma c2_scan: "scan codeFenceRegex [] [] fencedBlock = [Gap [], Match fencedBlock [], Gap []]"
  by (simp add: fencedBlock_def codeFenceRegex_def ev)

lemma c2_trim: "trimEmptyLinesAroundBlockMath fencedBlock = fencedBlockOut"
  by (simp add: fencedBlock_def fencedBlockOut_def ev ev_trim)

lemma c2_blob: "\<not> isLinkBlob fencedBlock"
  by (rule not_blob) (simp_all add: fencedBlock_def js_def)

text \<open>
  Claim C2 says that a fenced code block is byte-identical in the output. The final pass
  \<open>trimEmptyLinesAroundBlockMath\<close> runs over the joined segments, fenced blocks included:
  for every setting of the options, the blank line before a \<open>$$\<close> inside the fence is
  removed.
\<close>

theorem fenced_block_rewritten:
  "convertKatexToMathJax fencedBlock opts = fencedBlockOut \<and> fencedBlockOut \<noteq> fencedBlock"
proof -
  have "convertKatexToMathJax fencedBlock opts = trimEmptyLinesAroundBlockMath fencedBlock"
    using c2_blob by (simp add: convertKatexToMathJax_def isLinkBlob_def Let_def c2_scan)
  moreover have "fencedBlockOut \<noteq> fencedBlock"
    by (simp add: fencedBlock_def fencedBlockOut_def js_def)
  ultimately show ?thesis by (simp add: c2_trim)
qed

definition onlyWrapBare :: ConvertOptions where
  "onlyWrapBare =
     \<lparr> wrapMatrixEnvsInDisplayMath = False,
       plainParensAsDelimiters = False,
       plainBracketsAsDelimiters = False,
       convertBareInlineLatex = False,
       wrapBareMathSingleLines = True \<rparr>"

lemma onlyWrapBare_flags:
  "\<not> plainParensAsDelimiters onlyWrapBare" "\<not> plainBracketsAsDelimiters onlyWrapBare"
  "\<not> convertBareInlineLatex onlyWrapBare" "wrapBareMathSingleLines onlyWrapBare"
  by (simp_all add: onlyWrapBare_def)

lemmas ev_lines = wrapBareMathLinesOutside_def rxDisplaySpan_def wrapBareMathLines_def
  rxLineBreak_def wrapLine_def isMathLine_def isAlreadyMathDelim_def isHr_def rxHr_def
  rxDollar_def rxHeading_def rxBullet_def rxInlineWrapped_def rxDisplayWrapped_def
  rxMathToken_def rxCommand_def rxArith_def rxWordy_def

definition lineAboveDisplay :: jsstring where
  "lineAboveDisplay = js ''x=1'' @ NL # js ''$$'' @ NL # js ''y'' @ NL # js ''$$''"

definition lineAboveDisplayOut :: jsstring where
  "lineAboveDisplayOut = js ''$$'' @ NL # js ''x=1'' @ NL # js ''$$'' @ NL # js ''$$'' @ NL
     # js ''y'' @ NL # js ''$$''"

lemma c7_wrap: "wrapBareMathLinesOutside lineAboveDisplay = lineAboveDisplayOut"
  by (simp add: lineAboveDisplay_def lineAboveDisplayOut_def ev ev_lines)

lemma c7_trim: "trimEmptyLinesAroundBlockMath lineAboveDisplayOut = lineAboveDisplayOut"
  by (simp add: lineAboveDisplayOut_def ev ev_trim)

lemma c7_chars: "58 \<notin> set lineAboveDisplay" "91 \<notin> set lineAboveDisplay"
  "96 \<notin> set lineAboveDisplay" "BSL \<notin> set lineAboveDisplay" "lineAboveDisplay \<noteq> []"
  by (simp_all add: lineAboveDisplay_def js_def)

text \<open>
  Claim C7 says that a mathy line directly above or below an existing display-delimiter line
  is never promoted. With \<open>wrapBareMathSingleLines\<close> set, the code promotes the line
  \<open>x=1\<close> that stands directly above the opening \<open>$$\<close> line of a display block:
  \<open>wrapBareMathLinesOutside\<close> has split the block off before the neighbouring lines are
  looked at.
\<close>

theorem line_above_display_promoted:
  "convertKatexToMathJax lineAboveDisplay onlyWrapBare = lineAboveDisplayOut"
proof -
  have "processMath lineAboveDisplay onlyWrapBare = lineAboveDisplayOut"
    using c7_chars by (simp add: processMath_plain inlineStages_off onlyWrapBare_flags c7_wrap)
  then show ?thesis using c7_chars c7_trim by (simp add: convert_prose)
qed

text \<open>The two examples of the claim, with only \<open>wrapBareMathSingleLines\<close> set.\<close>

lemma bare_line_examples:
  "convertKatexToMathJax (js ''a^2 + b^2 = c^2'') onlyWrapBare
     = js ''$$'' @ NL # js ''a^2 + b^2 = c^2'' @ NL # js ''$$''"
  "convertKatexToMathJax (js ''This is a sentence.'') onlyWrapBare = js ''This is a sentence.''"
proof -
  have w1: "wrapBareMathLinesOutside (js ''a^2 + b^2 = c^2'')
              = js ''$$'' @ NL # js ''a^2 + b^2 = c^2'' @ NL # js ''$$''"
    by (simp add: ev ev_lines)
  have t1: "trimEmptyLinesAroundBlockMath (js ''$$'' @ NL # js ''a^2 + b^2 = c^2'' @ NL # js ''$$'')
              = js ''$$'' @ NL # js ''a^2 + b^2 = c^2'' @ NL # js ''$$''"
    by (simp add: ev ev_trim)
  have c1: "58 \<notin> set (js ''a^2 + b^2 = c^2'')" "91 \<notin> set (js ''a^2 + b^2 = c^2'')"
    "96 \<notin> set (js ''a^2 + b^2 = c^2'')" "BSL \<notin> set (js ''a^2 + b^2 = c^2'')"
    "js ''a^2 + b^2 = c^2'' \<noteq> []"
    by (simp_all add: js_def)
  have "processMath (js ''a^2 + b^2 = c^2'') onlyWrapBare
          = js ''$$'' @ NL # js ''a^2 + b^2 = c^2'' @ NL # js ''$$''"
    using c1 by (simp add: processMath_plain inlineStages_off onlyWrapBare_flags w1)
  then show "convertKatexToMathJax (js ''a^2 + b^2 = c^2'') onlyWrapBare
     = js ''$$'' @ NL # js ''a^2 + b^2 = c^2'' @ NL # js ''$$''"
    using c1 t1 by (simp add: convert_prose)
  have w2: "wrapBareMathLinesOutside (js ''This is a sentence.'') = js ''This is a sentence.''"
    by (simp add: ev ev_lines)
  have t2: "trimEmptyLinesAroundBlockMath (js ''This is a sentence.'') = js ''This is a sentence.''"
    by (simp add: ev ev_trim)
  have c2: "58 \<notin> set (js ''This is a sentence.'')" "91 \<notin> set (js ''This is a sentence.'')"
    "96 \<notin> set (js ''This is a sentence.'')" "BSL \<notin> set (js ''This is a sentence.'')"
    "js ''This is a sentence.'' \<noteq> []"
    by (simp_all add: js_def)
  have "processMath (js ''This is a sentence.'') onlyWrapBare = js ''This is a sentence.''"
    using c2 by (simp add: processMath_plain inlineStages_off onlyWrapBare_flags w2)
  then show "convertKatexToMathJax (js ''This is a sentence.'') onlyWrapBare
               = js ''This is a sentence.''"
    using c2 t2 by (simp add: convert_prose)
qed

section \<open>Display regions and the inline stages\<close>





lemmas ev_guard = convertInlineDelims_def convertOutermostInline_def coiLoop.simps
  isSafeParens_def isSafeBrackets_def isLatexLike_def contextIsMathy_def
  rxBackslash_def rxEqSubSup_def rxArith_def rxAlnum_def rxAngle_def rxNorm_def rxMathSym_def
  rxFunctionName_def rxFontMacro_def rxTextMacro_def rxOperatorname_def rxGreek_def
  rxBeginEnv_def rxListPair_def rxSubSup_def rxCall_def rxMathChar_def rxMathNoun_def
  rxOrdinal_def rxEnumeration_def rxNoteWord_def rxSingleLetter_def rxLinkOrImage_def
  rxFootnote_def rxImageStarter_def




section \<open>Escaped parentheses\<close>

text \<open>\<open>p\<close> occurs in \<open>s\<close> as a contiguous substring.\<close>

fun occursIn :: "jsstring \<Rightarrow> jsstring \<Rightarrow> bool" where
  "occursIn p [] = (p = [])"
| "occursIn p (c # cs) = (startsWith p (c # cs) \<or> occursIn p cs)"










lemma occursIn_startsWith: "startsWith p s \<Longrightarrow> occursIn p s"
  by (cases s) (auto elim: startsWith.elims)

lemma occursIn_append_right: "occursIn p ys \<Longrightarrow> occursIn p (xs @ ys)"
proof (induction xs)
  case Nil
  then show ?case by simp
next
  case (Cons x xs)
  then show ?case by simp
qed








lemma consumes_blank_NL:
  "consumes (\<lambda>m. NL \<in> set m) rxBlankBefore" "consumes (\<lambda>m. NL \<in> set m) rxBlankAfter"
  unfolding rxBlankBefore_def rxBlankAfter_def
  by ((rule consumes_weaken, (rule consumes_intros)+, auto)[1])+

lemma trimEmpty_no_NL: "NL \<notin> set s \<Longrightarrow> trimEmptyLinesAroundBlockMath s = s"
  by (simp add: trimEmptyLinesAroundBlockMath_def replaceAll_no_match[OF consumes_blank_NL(1)]
        replaceAll_no_match[OF consumes_blank_NL(2)])


section \<open>A second conversion under the default options\<close>

lemma scan_Gap_set:
  assumes r: "consumes M r"
  shows "Gap g \<in> set (scan r rb gap s) \<Longrightarrow> set g \<subseteq> set gap \<union> set s"
  using r
proof (induction r rb gap s rule: scan.induct)
  case (1 r rb gap s)
  note r = "1.prems"(2)
  note mem = "1.prems"(1)
  show ?case
  proof (cases "matchAt r rb s")
    case None
    show ?thesis
    proof (cases s)
      case Nil
      with None mem show ?thesis by (subst (asm) scan.simps) simp
    next
      case (Cons c cs)
      with None mem have "Gap g \<in> set (scan r (c # rb) (gap @ [c]) cs)"
        by (subst (asm) scan.simps) simp
      from "1.IH"(1)[OF None Cons this r] Cons show ?thesis by auto
    qed
  next
    case (Some a)
    obtain caps rest where a: "a = (caps, rest)" by (cases a)
    show ?thesis
    proof (cases "length rest < length s")
      case True
      from mem Some a True have
        "g = gap \<or> Gap g \<in> set (scan r (rev (take (length s - length rest) s) @ rb) [] rest)"
        by (subst (asm) scan.simps) simp
      then show ?thesis
      proof
        assume "g = gap" then show ?thesis by simp
      next
        assume "Gap g \<in> set (scan r (rev (take (length s - length rest) s) @ rb) [] rest)"
        from "1.IH"(2)[OF Some a[symmetric] True this r] have "set g \<subseteq> set rest" by simp
        moreover have "take (length s - length rest) s @ rest = s"
          using matchAt_take(1)[OF r] Some a by simp
        then have "set rest \<subseteq> set s" by (metis Un_upper2 set_append)
        ultimately show ?thesis by auto
      qed
    next
      case False
      show ?thesis
      proof (cases s)
        case Nil
        with Some a False mem show ?thesis by (subst (asm) scan.simps) auto
      next
        case (Cons c cs)
        with Some a False mem have "g = gap \<or> Gap g \<in> set (scan r (c # rb) [c] cs)"
          by (subst (asm) scan.simps) simp
        then show ?thesis
        proof
          assume "g = gap" then show ?thesis by simp
        next
          assume "Gap g \<in> set (scan r (c # rb) [c] cs)"
          from "1.IH"(3)[OF Some a[symmetric] False Cons this r] Cons show ?thesis by auto
        qed
      qed
    qed
  qed
qed

lemma pieces_unchanged:
  "(\<And>g. Gap g \<in> set ps \<Longrightarrow> f g = g) \<Longrightarrow>
   concat (map (\<lambda>p. case p of Gap g \<Rightarrow> f g | Match m caps \<Rightarrow> m) ps) = concat (map pieceText ps)"
proof (induction ps)
  case Nil
  show ?case by simp
next
  case (Cons p ps)
  have "concat (map (\<lambda>p. case p of Gap g \<Rightarrow> f g | Match m caps \<Rightarrow> m) ps)
          = concat (map pieceText ps)"
    by (rule Cons.IH) (simp add: Cons.prems)
  moreover have "(case p of Gap g \<Rightarrow> f g | Match m caps \<Rightarrow> m) = pieceText p"
    using Cons.prems[of "case p of Gap g \<Rightarrow> g | Match m caps \<Rightarrow> []"] by (cases p) simp_all
  ultimately show ?case by simp
qed

lemma processMath_default_plain:
  assumes "BSL \<notin> set h" and "91 \<notin> set h"
  shows "processMath h DEFAULT_SETTINGS = h"
  by (simp only: processMath_plain[OF assms] default_flags(5) if_False
        inlineStages_off[OF default_flags(2,3,4)])

lemma processOutsideCode_default_plain:
  assumes "BSL \<notin> set g" and "91 \<notin> set g"
  shows "processOutsideCode g DEFAULT_SETTINGS = g"
proof -
  have "(if h \<noteq> [] then processMath h DEFAULT_SETTINGS else []) = h"
    if "Gap h \<in> set (scan urlRegex [] [] g)" for h
  proof -
    from scan_Gap_set[OF consumes_urlRegex that] have "set h \<subseteq> set g" by simp
    with assms have "BSL \<notin> set h" "91 \<notin> set h" by auto
    then show ?thesis by (simp add: processMath_default_plain)
  qed
  then have "processOutsideCode g DEFAULT_SETTINGS
               = concat (map pieceText (scan urlRegex [] [] g))"
    unfolding processOutsideCode_def by (rule pieces_unchanged)
  then show ?thesis by (simp add: scan_concat[OF consumes_urlRegex])
qed

lemma convert_default_fixed:
  assumes "BSL \<notin> set y" and "91 \<notin> set y" and "trimEmptyLinesAroundBlockMath y = y"
  shows "convertKatexToMathJax y DEFAULT_SETTINGS = y"
proof (cases "isLinkBlob y")
  case True
  then show ?thesis by (rule convert_blob)
next
  case False
  have "(if g \<noteq> [] then processOutsideCode g DEFAULT_SETTINGS else []) = g"
    if "Gap g \<in> set (scan codeFenceRegex [] [] y)" for g
  proof -
    from scan_Gap_set[OF consumes_codeFenceRegex that] have "set g \<subseteq> set y" by simp
    with assms have "BSL \<notin> set g" "91 \<notin> set g" by auto
    then show ?thesis by (simp add: processOutsideCode_default_plain)
  qed
  then have "concat (map (\<lambda>p. case p of
                 Gap g \<Rightarrow> if g \<noteq> [] then processOutsideCode g DEFAULT_SETTINGS else []
               | Match m caps \<Rightarrow> m) (scan codeFenceRegex [] [] y))
             = concat (map pieceText (scan codeFenceRegex [] [] y))"
    by (rule pieces_unchanged)
  then have "concat (map (\<lambda>p. case p of
                 Gap g \<Rightarrow> if g \<noteq> [] then processOutsideCode g DEFAULT_SETTINGS else []
               | Match m caps \<Rightarrow> m) (scan codeFenceRegex [] [] y)) = y"
    by (simp add: scan_concat[OF consumes_codeFenceRegex])
  with False assms(3) show ?thesis
    by (simp add: convertKatexToMathJax_def isLinkBlob_def Let_def)
qed


section \<open>Embedded URLs\<close>

lemma startsWith_append: "startsWith p (p @ b)"
  by (induction p) simp_all

lemma occursIn_middle: "occursIn u (a @ u @ b)"
  by (rule occursIn_append_right, rule occursIn_startsWith, rule startsWith_append)

lemma piece_in_concat:
  "p \<in> set ps \<Longrightarrow> \<exists>a b. concat (map F ps) = a @ F p @ b"
proof -
  assume "p \<in> set ps"
  then obtain xs ys where "ps = xs @ p # ys" by (auto dest: split_list)
  then have "concat (map F ps) = concat (map F xs) @ F p @ concat (map F ys)" by simp
  then show ?thesis by blast
qed

text \<open>The result of replacing every match, from the pieces of the scan.\<close>

fun pieceOut :: "(jsstring \<Rightarrow> jsstring list \<Rightarrow> jsstring) \<Rightarrow> piece \<Rightarrow> jsstring" where
  "pieceOut f (Gap g) = g"
| "pieceOut f (Match m caps) = f m caps"

lemma replaceAll_pieceOut: "replaceAll r f s = concat (map (pieceOut f) (scan r [] [] s))"
proof -
  have "(\<lambda>p. case p of Gap g \<Rightarrow> g | Match m caps \<Rightarrow> f m caps) = pieceOut f"
    by (rule ext) (simp split: piece.split)
  then show ?thesis by (simp add: replaceAll_def)
qed

text \<open>Every match of the piece list is a non-empty run of white space.\<close>

fun blankPiece :: "piece \<Rightarrow> bool" where
  "blankPiece (Gap g) = True"
| "blankPiece (Match m caps) = (m \<noteq> [] \<and> list_all isWS m)"

abbreviation blankMatches :: "piece list \<Rightarrow> bool" where
  "blankMatches \<equiv> list_all blankPiece"

lemma blankMatches_Cons: "blankMatches (p # ps) \<Longrightarrow> blankMatches ps"
  by simp

lemma blankMatches_Match: "blankMatches (Match m caps # ps) \<Longrightarrow> m \<noteq> [] \<and> list_all isWS m"
  by simp

lemma prefix_kept:
  assumes "list_all (\<lambda>c. \<not> isWS c) w"
  shows "blankMatches ps \<Longrightarrow> concat (map pieceText ps) = w @ b \<Longrightarrow>
         \<exists>b'. concat (map (pieceOut f) ps) = w @ b'"
  using assms
proof (induction ps arbitrary: w b)
  case Nil
  then show ?case by simp
next
  case (Cons p ps)
  note bm = blankMatches_Cons[OF Cons.prems(1)]
  show ?case
  proof (cases w)
    case Nil
    then show ?thesis by simp
  next
    case (Cons d w')
    note w = Cons
    show ?thesis
    proof (cases p)
      case (Gap g)
      with Cons.prems(2) have "g @ concat (map pieceText ps) = w @ b" by simp
      then obtain us where
        "(g = w @ us \<and> us @ concat (map pieceText ps) = b)
         \<or> (g @ us = w \<and> concat (map pieceText ps) = us @ b)"
        by (auto simp: append_eq_append_conv2)
      then show ?thesis
      proof
        assume "g = w @ us \<and> us @ concat (map pieceText ps) = b"
        with Gap show ?thesis by simp
      next
        assume c: "g @ us = w \<and> concat (map pieceText ps) = us @ b"
        with Cons.prems(3) have "list_all (\<lambda>c. \<not> isWS c) us" by auto
        from Cons.IH[OF bm _ this] c obtain b' where
          "concat (map (pieceOut f) ps) = us @ b'" by blast
        with c Gap show ?thesis by auto
      qed
    next
      case (Match m caps)
      with Cons.prems(1) have m: "m \<noteq> []" "list_all isWS m"
        using blankMatches_Match by blast+
      then obtain c m' where m': "m = c # m'" by (cases m) auto
      with Match Cons.prems(2) w have "c = d" by simp
      with m m' w Cons.prems(3) show ?thesis by simp
    qed
  qed
qed

lemma substring_kept:
  assumes "u \<noteq> []" and "list_all (\<lambda>c. \<not> isWS c) u"
  shows "blankMatches ps \<Longrightarrow> concat (map pieceText ps) = a @ u @ b \<Longrightarrow>
         \<exists>a' b'. concat (map (pieceOut f) ps) = a' @ u @ b'"
proof (induction ps arbitrary: a)
  case Nil
  with assms(1) show ?case by simp
next
  case (Cons p ps)
  note bm = blankMatches_Cons[OF Cons.prems(1)]
  from Cons.prems(2) have "pieceText p @ concat (map pieceText ps) = a @ u @ b" by simp
  then obtain us where
    "(pieceText p = a @ us \<and> us @ concat (map pieceText ps) = u @ b)
     \<or> (pieceText p @ us = a \<and> concat (map pieceText ps) = us @ u @ b)"
    by (auto simp: append_eq_append_conv2)
  then show ?case
  proof
    assume c: "pieceText p @ us = a \<and> concat (map pieceText ps) = us @ u @ b"
    from Cons.IH[OF bm] c obtain a' b' where
      "concat (map (pieceOut f) ps) = a' @ u @ b'" by blast
    then have "concat (map (pieceOut f) (p # ps)) = (pieceOut f p @ a') @ u @ b'" by simp
    then show ?thesis by blast
  next
    assume c: "pieceText p = a @ us \<and> us @ concat (map pieceText ps) = u @ b"
    show ?thesis
    proof (cases p)
      case (Gap g)
      have "blankMatches (Gap us # ps)" using Cons.prems(1) Gap by simp
      moreover have "concat (map pieceText (Gap us # ps)) = u @ b" using c by simp
      ultimately obtain b' where "concat (map (pieceOut f) (Gap us # ps)) = u @ b'"
        using prefix_kept[OF assms(2)] by blast
      then have "us @ concat (map (pieceOut f) ps) = u @ b'" by simp
      with c Gap have "concat (map (pieceOut f) (p # ps)) = a @ u @ b'" by simp
      then show ?thesis by blast
    next
      case (Match m caps)
      with Cons.prems(1) have m: "m \<noteq> []" "list_all isWS m"
        using blankMatches_Match by blast+
      have "us = []"
      proof (rule ccontr)
        assume "us \<noteq> []"
        then obtain c' us' where us: "us = c' # us'" by (cases us) auto
        from assms(1) obtain d u' where u: "u = d # u'" by (cases u) auto
        from c us u have "c' = d" by simp
        moreover from c Match m us have "isWS c'" by auto
        moreover from assms(2) u have "\<not> isWS d" by simp
        ultimately show False by simp
      qed
      with c have "concat (map pieceText ps) = u @ b" by simp
      from prefix_kept[OF assms(2) bm this] obtain b' where
        "concat (map (pieceOut f) ps) = u @ b'" by blast
      then have "concat (map (pieceOut f) (p # ps)) = pieceOut f p @ u @ b'" by simp
      then show ?thesis by blast
    qed
  qed
qed

lemma replaceAll_keeps:
  assumes r: "consumes (\<lambda>m. m \<noteq> [] \<and> list_all isWS m) r"
    and u: "u \<noteq> []" "list_all (\<lambda>c. \<not> isWS c) u"
  shows "\<exists>a' b'. replaceAll r f (a @ u @ b) = a' @ u @ b'"
proof -
  have "blankPiece p" if "p \<in> set (scan r [] [] (a @ u @ b))" for p
  proof (cases p)
    case (Gap g)
    then show ?thesis by simp
  next
    case (Match m caps)
    with that scan_Match[OF r, of m caps "[]" "[]" "a @ u @ b"] show ?thesis by simp
  qed
  then have "blankMatches (scan r [] [] (a @ u @ b))" by (simp add: list_all_iff)
  moreover have "concat (map pieceText (scan r [] [] (a @ u @ b))) = a @ u @ b"
    by (simp add: scan_concat[OF r])
  ultimately show ?thesis
    unfolding replaceAll_pieceOut by (rule substring_kept[OF u])
qed

lemma trimEmpty_keeps:
  assumes "u \<noteq> []" "list_all (\<lambda>c. \<not> isWS c) u"
  shows "\<exists>a' b'. trimEmptyLinesAroundBlockMath (a @ u @ b) = a' @ u @ b'"
proof -
  from replaceAll_keeps[OF consumes_rxBlankBefore assms] obtain a1 b1 where
    "replaceAll rxBlankBefore (\<lambda>m caps. [NL]) (a @ u @ b) = a1 @ u @ b1" by blast
  with replaceAll_keeps[OF consumes_rxBlankAfter assms, of "\<lambda>m caps. [NL]" a1 b1]
  show ?thesis by (simp add: trimEmptyLinesAroundBlockMath_def)
qed

lemma url_kept:
  assumes g: "Gap g \<in> set (scan codeFenceRegex [] [] input)"
    and u: "Match u caps \<in> set (scan urlRegex [] [] g)"
  shows "occursIn u (convertKatexToMathJax input opts)"
proof -
  from scan_Match[OF consumes_urlRegex u] have u': "u \<noteq> []" "list_all (\<lambda>c. \<not> isWS c) u"
    by simp_all
  from piece_in_concat[OF u, of pieceText] scan_concat[OF consumes_urlRegex, of "[]" "[]" g]
  obtain a b where 1: "g = a @ u @ b" by auto
  with u' have gne: "g \<noteq> []" by simp
  show ?thesis
  proof (cases "isLinkBlob input")
    case True
    from piece_in_concat[OF g, of pieceText]
      scan_concat[OF consumes_codeFenceRegex, of "[]" "[]" input]
    obtain c d where "input = c @ g @ d" by auto
    with 1 have "input = (c @ a) @ u @ (b @ d)" by simp
    then have "occursIn u input" using occursIn_middle by metis
    with True show ?thesis by (simp add: convert_blob)
  next
    case False
    let ?P = "\<lambda>p. case p of Gap g \<Rightarrow> if g \<noteq> [] then processMath g opts else []
                     | Match m caps \<Rightarrow> m"
    let ?S = "\<lambda>p. case p of Gap g \<Rightarrow> if g \<noteq> [] then processOutsideCode g opts else []
                     | Match m caps \<Rightarrow> m"
    from piece_in_concat[OF u, of ?P] obtain a b where
      "processOutsideCode g opts = a @ u @ b" by (auto simp: processOutsideCode_def)
    moreover from piece_in_concat[OF g, of ?S] gne obtain c d where
      "concat (map ?S (scan codeFenceRegex [] [] input)) = c @ processOutsideCode g opts @ d"
      by auto
    ultimately have "concat (map ?S (scan codeFenceRegex [] [] input)) = (c @ a) @ u @ (b @ d)"
      by simp
    with trimEmpty_keeps[OF u', of "c @ a" "b @ d"] obtain a' b' where
      "trimEmptyLinesAroundBlockMath (concat (map ?S (scan codeFenceRegex [] [] input)))
         = a' @ u @ b'" by auto
    with False have "convertKatexToMathJax input opts = a' @ u @ b'"
      by (simp add: convertKatexToMathJax_def isLinkBlob_def Let_def)
    then show ?thesis by (simp add: occursIn_middle)
  qed
qed


definition onlyBareInline :: ConvertOptions where
  "onlyBareInline =
     \<lparr> wrapMatrixEnvsInDisplayMath = False,
       plainParensAsDelimiters = False,
       plainBracketsAsDelimiters = False,
       convertBareInlineLatex = True,
       wrapBareMathSingleLines = False \<rparr>"

lemma onlyBareInline_flags:
  "\<not> plainParensAsDelimiters onlyBareInline" "\<not> plainBracketsAsDelimiters onlyBareInline"
  "convertBareInlineLatex onlyBareInline" "\<not> wrapBareMathSingleLines onlyBareInline"
  by (simp_all add: onlyBareInline_def)

lemmas ev_bare = wrapInlineBareLatex_def rxDelimLineM_def rxDegree_def rxSqrt_def rxFrac_def
  rxScript_def

lemma inlineStages_bare:
  assumes "\<not> plainParensAsDelimiters opts" "\<not> plainBracketsAsDelimiters opts"
    "convertBareInlineLatex opts" and "DOLLAR \<notin> set t" and "t \<noteq> []"
  shows "inlineStages t opts = wrapInlineBareLatex t"
proof -
  have "applyOutsideDisplay t (\<lambda>seg. convertInlineDelims seg opts) = t"
    by (rule applyOutsideDisplay_id) (simp add: convertInlineDelims_off assms)
  moreover have "applyOutsideDisplay t (\<lambda>seg. wrapInlineBareLatex seg) = wrapInlineBareLatex t"
    using assms(4,5) by (simp add: applyOutsideDisplay_def segmentByDisplayMath_no_dollar)
  ultimately show ?thesis using assms(3) by (simp add: inlineStages_def)
qed

definition ftpLink :: jsstring where
  "ftpLink = js ''see ftp://a/x_1''"

definition ftpLinkOut :: jsstring where
  "ftpLinkOut = js ''see ftp://a/$x_1$''"

lemma c3_bare: "wrapInlineBareLatex ftpLink = ftpLinkOut"
  by (simp add: ftpLink_def ftpLinkOut_def ev ev_bare)

lemma c3_chars: "104 \<notin> set ftpLink" "91 \<notin> set ftpLink" "96 \<notin> set ftpLink" "ftpLink \<noteq> []"
  "BSL \<notin> set ftpLink" "DOLLAR \<notin> set ftpLink" "NL \<notin> set ftpLinkOut"
  by (simp_all add: ftpLink_def ftpLinkOut_def js_def)

text \<open>
  Claim C3, as stated, fails: only spans that start with \<open>http://\<close> or \<open>https://\<close> are
  set aside; a URL of another scheme is ordinary prose for the math stages.
\<close>

theorem other_scheme_url_counterexample:
  "convertKatexToMathJax (js ''see ftp://a/x_1'') onlyBareInline = js ''see ftp://a/$x_1$''
   \<and> \<not> occursIn (js ''ftp://a/x_1'') (js ''see ftp://a/$x_1$'')"
proof -
  have "processMath ftpLink onlyBareInline = ftpLinkOut"
    by (simp only: processMath_plain[OF c3_chars(5,2)] onlyBareInline_flags(4) if_False
          inlineStages_bare[OF onlyBareInline_flags(1,2,3) c3_chars(6,4)] c3_bare)
  then have "convertKatexToMathJax ftpLink onlyBareInline = ftpLinkOut"
    by (simp only: convert_prose[OF disjI2[OF c3_chars(1)] c3_chars(2,3,4)]
          trimEmpty_no_NL[OF c3_chars(7)])
  moreover have "\<not> occursIn (js ''ftp://a/x_1'') (js ''see ftp://a/$x_1$'')"
    by (simp add: js_def)
  ultimately show ?thesis by (simp add: ftpLink_def ftpLinkOut_def)
qed

text \<open>
  Claim C3, amended. The input \<open>https://example.com\<close> is returned unchanged for every
  setting of the options; and every span that the scan for \<open>http://\<close> or \<open>https://\<close>
  (up to white space or a closing parenthesis) finds in the text outside the fenced code
  blocks occurs verbatim in the output, for every input and every setting of the options.
\<close>

theorem http_url_spans_kept:
  "convertKatexToMathJax (js ''https://example.com'') opts = js ''https://example.com''
   \<and> (Gap g \<in> set (scan codeFenceRegex [] [] input)
        \<and> Match u caps \<in> set (scan urlRegex [] [] g)
      \<longrightarrow> occursIn u (convertKatexToMathJax input opts))"
proof -
  have "isLinkBlob (js ''https://example.com'')"
    by (simp add: isLinkBlob_def rxRawUrl_def ev)
  then show ?thesis using url_kept[of g input u caps opts] by (simp add: convert_blob)
qed

theorem http_url_spans_kept_witness:
  "Gap (js ''see http://a/x_1'') \<in> set (scan codeFenceRegex [] [] (js ''see http://a/x_1''))
   \<and> Match (js ''http://a/x_1'') [] \<in> set (scan urlRegex [] [] (js ''see http://a/x_1''))
   \<and> occursIn (js ''http://a/x_1'')
        (convertKatexToMathJax (js ''see http://a/x_1'') onlyBareInline)"
proof -
  let ?x = "js ''see http://a/x_1''"
  have "96 \<notin> set ?x" by (simp add: js_def)
  from scan_no_match[OF consumes_fence this, of "[]" "[]"]
  have 1: "Gap ?x \<in> set (scan codeFenceRegex [] [] ?x)" by simp
  have "scan urlRegex [] [] ?x = [Gap (js ''see ''), Match (js ''http://a/x_1'') [], Gap []]"
    by (simp add: urlRegex_def ev)
  then have 2: "Match (js ''http://a/x_1'') [] \<in> set (scan urlRegex [] [] ?x)" by simp
  from http_url_spans_kept[of onlyBareInline ?x ?x "js ''http://a/x_1''" "[]"] 1 2
  have "occursIn (js ''http://a/x_1'') (convertKatexToMathJax ?x onlyBareInline)" by blast
  with 1 2 show ?thesis by blast
qed

section \<open>Guarded rejection\<close>

definition seeSection :: jsstring where
  "seeSection = js ''(see section 2)''"

definition allFlags :: ConvertOptions where
  "allFlags =
     \<lparr> wrapMatrixEnvsInDisplayMath = True,
       plainParensAsDelimiters = True,
       plainBracketsAsDelimiters = True,
       convertBareInlineLatex = True,
       wrapBareMathSingleLines = True \<rparr>"

lemma applyOutsideDisplay_no_dollar:
  "DOLLAR \<notin> set t \<Longrightarrow> t \<noteq> [] \<Longrightarrow> applyOutsideDisplay t f = f t"
  by (simp add: applyOutsideDisplay_def segmentByDisplayMath_no_dollar)

lemma c6_chars: "58 \<notin> set seeSection" "91 \<notin> set seeSection" "96 \<notin> set seeSection"
  "seeSection \<noteq> []" "BSL \<notin> set seeSection" "DOLLAR \<notin> set seeSection" "NL \<notin> set seeSection"
  by (simp_all add: seeSection_def js_def)

lemma c6_noteword: "test rxNoteWord (js ''see section 2'')"
  by (simp add: rxNoteWord_def ev)

lemma c6_enum: "\<not> test rxEnumeration (js ''see section 2'')"
  by (simp add: rxEnumeration_def ev)

lemma c6_guard: "\<not> isSafeParens (js ''see section 2'') before after original"
  by (simp add: isSafeParens_def c6_noteword c6_enum)

lemma c6_lines: "wrapBareMathLinesOutside seeSection = seeSection"
  by (simp add: seeSection_def ev ev_lines)

lemma c6_parens: "convertOutermostInline seeSection 40 41 isSafeParens = seeSection"
proof -
  have "\<not> isSafeParens [115, 101, 101, 32, 115, 101, 99, 116, 105, 111, 110, 32, 50] b a m"
    for b a m
    using c6_guard[of b a m] by (simp add: js_def)
  then show ?thesis
    by (simp add: seeSection_def convertOutermostInline_def coiLoop.simps ev)
qed

lemma c6_parens_unguarded:
  "convertOutermostInline seeSection 40 41 (\<lambda>content before after original. True)
     = js ''$see section 2$''"
  by (simp add: seeSection_def convertOutermostInline_def coiLoop.simps ev)

lemma c6_brackets: "convertOutermostInline seeSection 91 93 g = seeSection"
  by (simp add: seeSection_def convertOutermostInline_def coiLoop.simps ev)

lemma c6_bare: "wrapInlineBareLatex seeSection = seeSection"
  by (simp add: seeSection_def ev ev_bare)

lemma c6_inline: "inlineStages seeSection opts = seeSection"
proof -
  have "convertInlineDelims seeSection opts = seeSection"
    by (simp add: convertInlineDelims_def c6_parens c6_brackets)
  then show ?thesis
    by (simp add: inlineStages_def applyOutsideDisplay_no_dollar[OF c6_chars(6,4)] c6_bare)
qed

lemma c6_see: "convertKatexToMathJax seeSection opts = seeSection"
proof -
  have "processMath seeSection opts = seeSection"
    by (simp add: processMath_plain[OF c6_chars(5,2)] c6_lines c6_inline)
  then show ?thesis
    by (simp only: convert_prose[OF disjI1[OF c6_chars(1)] c6_chars(2,3,4)]
          trimEmpty_no_NL[OF c6_chars(7)])
qed

lemma c6_link: "isLinkBlob (js ''[text](http://x)'')"
  by (simp add: isLinkBlob_def rxMarkdownLink_def ev)

text \<open>
  The early return looks at the whole input only. A link inside a longer text is cut at
  its \<open>http\<close> target by \<open>processOutsideCode\<close>, so \<open>isSafeBrackets\<close> never sees the link as
  a whole, and a label that looks like LaTeX is converted.
\<close>

definition onlyBrackets :: ConvertOptions where
  "onlyBrackets =
     \<lparr> wrapMatrixEnvsInDisplayMath = False,
       plainParensAsDelimiters = False,
       plainBracketsAsDelimiters = True,
       convertBareInlineLatex = False,
       wrapBareMathSingleLines = False \<rparr>"

lemma onlyBrackets_flags:
  "\<not> wrapMatrixEnvsInDisplayMath onlyBrackets" "\<not> plainParensAsDelimiters onlyBrackets"
  "plainBracketsAsDelimiters onlyBrackets" "\<not> convertBareInlineLatex onlyBrackets"
  "\<not> wrapBareMathSingleLines onlyBrackets"
  by (simp_all add: onlyBrackets_def)

definition linkInText :: jsstring where
  "linkInText = js ''see [a_1](http://x) now''"

lemma lt_blob: "\<not> isLinkBlob linkInText"
  by (simp add: linkInText_def isLinkBlob_def rxRawUrl_def rxMarkdownLink_def rxCombined_def ev)

lemma lt_scan:
  "scan urlRegex [] [] linkInText
     = [Gap (js ''see [a_1](''), Match (js ''http://x'') [], Gap (js '') now'')]"
  by (simp add: linkInText_def urlRegex_def ev)

lemma lt_norm: "normalise (js ''see [a_1]('') onlyBrackets = js ''see [a_1](''"
  by (simp add: onlyBrackets_flags ev ev_pm)

lemma lt_label: "convertInlineDelims (js ''see [a_1]('') onlyBrackets = js ''see $a_1$(''"
  by (simp add: onlyBrackets_flags ev ev_guard)

lemma lt_rest: "convertInlineDelims (js '') now'') onlyBrackets = js '') now''"
  by (simp add: onlyBrackets_flags ev ev_guard)

lemma lt_chars: "DOLLAR \<notin> set (js ''see [a_1]('')" "js ''see [a_1]('' \<noteq> []"
  "DOLLAR \<notin> set (js '') now'')" "js '') now'' \<noteq> []" "BSL \<notin> set (js '') now'')"
  "91 \<notin> set (js '') now'')" "96 \<notin> set linkInText" "linkInText \<noteq> []"
  "NL \<notin> set (js ''see $a_1$(http://x) now'')"
  by (simp_all add: linkInText_def js_def)

lemma link_label_inside_text:
  "convertKatexToMathJax (js ''see [a_1](http://x) now'') onlyBrackets
     = js ''see $a_1$(http://x) now''"
proof -
  have 1: "processMath (js ''see [a_1]('') onlyBrackets = js ''see $a_1$(''"
    by (simp add: processMath_stages onlyBrackets_flags lt_norm inlineStages_def
          applyOutsideDisplay_no_dollar[OF lt_chars(1,2)] lt_label)
  have 2: "processMath (js '') now'') onlyBrackets = js '') now''"
    by (simp add: processMath_plain[OF lt_chars(5,6)] onlyBrackets_flags inlineStages_def
          applyOutsideDisplay_no_dollar[OF lt_chars(3,4)] lt_rest)
  have "processOutsideCode linkInText onlyBrackets = js ''see $a_1$(http://x) now''"
    by (simp add: processOutsideCode_def lt_scan 1 2 lt_chars(2,4)) (simp add: js_def)
  then show ?thesis
    using convert_no_fence[OF lt_blob lt_chars(7,8), of onlyBrackets]
      trimEmpty_no_NL[OF lt_chars(9)]
    by (simp add: linkInText_def)
qed

text \<open>
  The two inputs named by the specification are returned unchanged: \<open>(see section 2)\<close>
  because \<open>isSafeParens\<close> rejects, in every context, an inner text that starts with one of
  the listed words, and \<open>[text](http://x)\<close> because an input that is, once trimmed, a
  Markdown link as a whole is returned as it is.
\<close>

lemma specified_inputs_unchanged:
  "(plainParensAsDelimiters opts \<longrightarrow>
      convertKatexToMathJax (js ''(see section 2)'') opts = js ''(see section 2)'')
   \<and> (plainBracketsAsDelimiters opts \<longrightarrow>
      convertKatexToMathJax (js ''[text](http://x)'') opts = js ''[text](http://x)'')
   \<and> (test rxNoteWord content \<longrightarrow> \<not> isSafeParens content before after original)
   \<and> (test rxMarkdownLink (trim input) \<longrightarrow> convertKatexToMathJax input opts = input)"
proof -
  have "test rxMarkdownLink (trim input) \<longrightarrow> convertKatexToMathJax input opts = input"
    by (simp add: convert_blob isLinkBlob_def)
  moreover have "test rxNoteWord content \<longrightarrow> \<not> isSafeParens content before after original"
    by (simp add: isSafeParens_def)
  ultimately show ?thesis
    using c6_see[of opts] by (simp add: seeSection_def convert_blob[OF c6_link])
qed

lemma specified_inputs_unchanged_all_flags:
  "convertKatexToMathJax (js ''(see section 2)'') allFlags = js ''(see section 2)''
   \<and> convertKatexToMathJax (js ''[text](http://x)'') allFlags = js ''[text](http://x)''"
  using specified_inputs_unchanged[of allFlags] by (simp add: allFlags_def)

definition plainLink :: jsstring where
  "plainLink = js ''see [a_1](x) now''"

lemma pl_blob: "\<not> isLinkBlob plainLink"
  by (simp add: plainLink_def isLinkBlob_def rxRawUrl_def rxMarkdownLink_def rxCombined_def ev)

lemma pl_norm: "normalise plainLink onlyBrackets = plainLink"
  by (simp add: plainLink_def onlyBrackets_flags ev ev_pm)

lemma pl_guard: "isSafeBrackets (js ''a_1'') (js ''see '') (js ''(x) now'') (js ''[a_1]'')"
  by (simp add: ev ev_guard)

lemma pl_label: "convertInlineDelims plainLink onlyBrackets = js ''see $a_1$(x) now''"
  by (simp add: plainLink_def onlyBrackets_flags ev ev_guard)

lemma pl_chars: "58 \<notin> set plainLink" "96 \<notin> set plainLink" "plainLink \<noteq> []"
  "DOLLAR \<notin> set plainLink" "NL \<notin> set (js ''see $a_1$(x) now'')"
  by (simp_all add: plainLink_def js_def)

lemma pl_convert: "convertKatexToMathJax plainLink onlyBrackets = js ''see $a_1$(x) now''"
proof -
  have "processMath plainLink onlyBrackets = js ''see $a_1$(x) now''"
    by (simp add: processMath_stages onlyBrackets_flags pl_norm inlineStages_def
          applyOutsideDisplay_no_dollar[OF pl_chars(4,3)] pl_label)
  then show ?thesis
    using convert_no_fence[OF pl_blob pl_chars(2,3), of onlyBrackets]
      processOutsideCode_no_url[OF disjI1[OF pl_chars(1)] pl_chars(3), of onlyBrackets]
      trimEmpty_no_NL[OF pl_chars(5)]
    by simp
qed

text \<open>
  Claim C6: the code at an input where it departs from the claim. With
  \<open>plainBracketsAsDelimiters\<close> on, the label of a Markdown link that stands inside a longer
  text is converted when it looks like LaTeX: \<open>isSafeBrackets\<close> tests the text around the
  span for a link with an expression anchored at both ends, which fails as soon as
  anything stands before or after the link, and a target that starts with \<open>http\<close> is cut
  off by \<open>processOutsideCode\<close> before the guard runs.
\<close>

theorem markdown_link_label_converted:
  "convertKatexToMathJax (js ''see [a_1](x) now'') onlyBrackets = js ''see $a_1$(x) now''
   \<and> convertKatexToMathJax (js ''see [a_1](http://x) now'') onlyBrackets
       = js ''see $a_1$(http://x) now''
   \<and> isSafeBrackets (js ''a_1'') (js ''see '') (js ''(x) now'') (js ''[a_1]'')"
  using pl_convert link_label_inside_text pl_guard by (simp add: plainLink_def)

section \<open>Texts in which an expression finds nothing\<close>

lemma startsWith_iff: "startsWith p s \<longleftrightarrow> (\<exists>b. s = p @ b)"
proof (induction p s rule: startsWith.induct)
  case (1 s)
  show ?case by simp
next
  case (2 p ps)
  show ?case by simp
next
  case (3 p ps c cs)
  then show ?case by auto
qed

lemma occursIn_iff: "occursIn p s \<longleftrightarrow> (\<exists>a b. s = a @ p @ b)"
proof (induction s)
  case Nil
  show ?case by auto
next
  case (Cons c cs)
  show ?case
  proof
    assume "occursIn p (c # cs)"
    then consider "startsWith p (c # cs)" | "occursIn p cs" by auto
    then show "\<exists>a b. c # cs = a @ p @ b"
    proof cases
      case 1
      then obtain b where "c # cs = p @ b" by (auto simp: startsWith_iff)
      then have "c # cs = [] @ p @ b" by simp
      then show ?thesis by blast
    next
      case 2
      with Cons.IH obtain a b where "cs = a @ p @ b" by blast
      then have "c # cs = (c # a) @ p @ b" by simp
      then show ?thesis by blast
    qed
  next
    assume "\<exists>a b. c # cs = a @ p @ b"
    then obtain a b where ab: "c # cs = a @ p @ b" by blast
    show "occursIn p (c # cs)"
    proof (cases a)
      case Nil
      with ab have "startsWith p (c # cs)" by (auto simp: startsWith_iff)
      then show ?thesis by simp
    next
      case (Cons d a')
      with ab have "cs = a' @ p @ b" by simp
      with Cons.IH have "occursIn p cs" by blast
      then show ?thesis by simp
    qed
  qed
qed


lemma occursIn_right: "occursIn p b \<Longrightarrow> occursIn p (a @ b)"
proof -
  assume "occursIn p b"
  then obtain x y where "b = x @ p @ y" by (auto simp: occursIn_iff)
  then have "a @ b = (a @ x) @ p @ y" by simp
  then show ?thesis unfolding occursIn_iff by blast
qed

lemma occursIn_Cons: "occursIn p b \<Longrightarrow> occursIn p (c # b)"
  using occursIn_right[of p b "[c]"] by simp












text \<open>The text starts with a line that holds blanks only: \<open>[ \t]*\n\<close>.\<close>

fun blankLineAt :: "jsstring \<Rightarrow> bool" where
  "blankLineAt [] = False"
| "blankLineAt (c # cs) = (c = NL \<or> (isBlank c \<and> blankLineAt cs))"

text \<open>The character \<open>d\<close> occurs with only blanks between it and the next line feed.\<close>

fun thenBlankLine :: "jschar \<Rightarrow> jsstring \<Rightarrow> bool" where
  "thenBlankLine d [] = False"
| "thenBlankLine d (c # cs) = ((c = d \<and> blankLineAt cs) \<or> thenBlankLine d cs)"

lemma blankLineAt_iff:
  "blankLineAt s \<longleftrightarrow> (\<exists>bs r. s = bs @ NL # r \<and> list_all isBlank bs)"
proof (induction s)
  case Nil
  show ?case by simp
next
  case (Cons c cs)
  show ?case
  proof
    assume "blankLineAt (c # cs)"
    then consider "c = NL" | "isBlank c" "blankLineAt cs" by auto
    then show "\<exists>bs r. c # cs = bs @ NL # r \<and> list_all isBlank bs"
    proof cases
      case 1
      then have "c # cs = [] @ NL # cs \<and> list_all isBlank []" by simp
      then show ?thesis by blast
    next
      case 2
      with Cons.IH obtain bs r where "cs = bs @ NL # r" "list_all isBlank bs" by blast
      with 2 have "c # cs = (c # bs) @ NL # r \<and> list_all isBlank (c # bs)" by simp
      then show ?thesis by blast
    qed
  next
    assume "\<exists>bs r. c # cs = bs @ NL # r \<and> list_all isBlank bs"
    then obtain bs r where b: "c # cs = bs @ NL # r" "list_all isBlank bs" by blast
    show "blankLineAt (c # cs)"
    proof (cases bs)
      case Nil
      with b show ?thesis by simp
    next
      case (Cons d bs')
      with b have "cs = bs' @ NL # r" "list_all isBlank bs'" "isBlank c" by auto
      with Cons.IH show ?thesis by auto
    qed
  qed
qed



lemma thenBlankLine_iff:
  "thenBlankLine d s \<longleftrightarrow> (\<exists>a bs r. s = a @ d # bs @ NL # r \<and> list_all isBlank bs)"
proof (induction s)
  case Nil
  show ?case by simp
next
  case (Cons c cs)
  show ?case
  proof
    assume "thenBlankLine d (c # cs)"
    then consider "c = d" "blankLineAt cs" | "thenBlankLine d cs" by auto
    then show "\<exists>a bs r. c # cs = a @ d # bs @ NL # r \<and> list_all isBlank bs"
    proof cases
      case 1
      then obtain bs r where "cs = bs @ NL # r" "list_all isBlank bs"
        by (auto simp: blankLineAt_iff)
      with 1 have "c # cs = [] @ d # bs @ NL # r \<and> list_all isBlank bs" by simp
      then show ?thesis by blast
    next
      case 2
      with Cons.IH obtain a bs r where "cs = a @ d # bs @ NL # r" "list_all isBlank bs"
        by blast
      then have "c # cs = (c # a) @ d # bs @ NL # r \<and> list_all isBlank bs" by simp
      then show ?thesis by blast
    qed
  next
    assume "\<exists>a bs r. c # cs = a @ d # bs @ NL # r \<and> list_all isBlank bs"
    then obtain a bs r where b: "c # cs = a @ d # bs @ NL # r" "list_all isBlank bs" by blast
    show "thenBlankLine d (c # cs)"
    proof (cases a)
      case Nil
      with b have "c = d" "blankLineAt cs" by (auto simp: blankLineAt_iff)
      then show ?thesis by simp
    next
      case (Cons e a')
      with b have "cs = a' @ d # bs @ NL # r" by simp
      with b(2) Cons.IH have "thenBlankLine d cs" by blast
      then show ?thesis by simp
    qed
  qed
qed



lemma thenBlankLine_Cons: "thenBlankLine d b \<Longrightarrow> thenBlankLine d (c # b)"
  by simp


lemma thenBlankLine_needs_NL: "thenBlankLine d s \<Longrightarrow> NL \<in> set s"
  by (auto simp: thenBlankLine_iff)




subsection \<open>The traces of the expressions of the pipeline\<close>












section \<open>Texts with escaped-parenthesis spans\<close>















section \<open>The explicit stages on such a text\<close>








section \<open>What the trimming of blank lines keeps\<close>















section \<open>Texts without a blank line\<close>














section \<open>The states of the segmenter's loop\<close>






lemma hasDollarPair_append: "hasDollarPair a \<Longrightarrow> hasDollarPair (a @ b)"
  by (induction a rule: hasDollarPair.induct) auto











end
